theory Spec2Isabelle
  imports Main "HOL-Library.Word" "HOL-Library.Multiset"
begin

unbundle bit_operations_syntax

section \<open>Basic types of the Go sources\<close>

type_synonym byte = "8 word"
type_synonym bytes = "byte list"
type_synonym u64 = "64 word"

text \<open>
  \<^verbatim>\<open>message.SubstreamMessage\<close>, \<^verbatim>\<open>message.TransportMessage\<close>: the payload field
  \<^verbatim>\<open>Data []byte\<close> is a Go slice. Its representation is a type parameter: a byte list where
  only the contents matter (codec, reorder queue, substream reads) and an address into a store of
  backing arrays where aliasing matters (\<^verbatim>\<open>Substream.Write\<close>). The fixed-size arrays
  \<^verbatim>\<open>[32]byte\<close> are byte lists whose length is stated where it matters.
\<close>

record 'd SubstreamMessage =
  sm_ID :: bytes
  sm_Type :: byte
  sm_Data :: 'd

record 'd TransportMessage =
  tm_Nonce :: u64
  tm_Message :: "'d SubstreamMessage"
  tm_ID :: bytes

definition ConnectionIDLength :: nat where "ConnectionIDLength = 32"
definition SubstreamIDLength :: nat where "SubstreamIDLength = 32"

text \<open>Go's zero value of a \<^verbatim>\<open>TransportMessage\<close>, given the nil slice of the payload representation.\<close>

definition zeroTransportMessage :: "'d \<Rightarrow> 'd TransportMessage" where
  "zeroTransportMessage nil =
     \<lparr>tm_Nonce = 0,
      tm_Message = \<lparr>sm_ID = replicate SubstreamIDLength 0, sm_Type = 0, sm_Data = nil\<rparr>,
      tm_ID = replicate ConnectionIDLength 0\<rparr>"

section \<open>queue/queue.go: the reordering queue\<close>

record 'd MessageQueue =
  nextExpectedNonce :: u64
  pending :: "u64 \<rightharpoonup> 'd TransportMessage"
  nonces :: "u64 list"

definition New :: "'d MessageQueue" where
  "New = \<lparr>nextExpectedNonce = 0, pending = Map.empty, nonces = []\<rparr>"

text \<open>\<^verbatim>\<open>SetConnectionMessageReceived\<close> panics when called twice: the panic is \<open>None\<close>.\<close>

definition SetConnectionMessageReceived :: "'d MessageQueue \<Rightarrow> 'd MessageQueue option" where
  "SetConnectionMessageReceived mq =
     (if nextExpectedNonce mq \<noteq> 0 then None else Some (mq\<lparr>nextExpectedNonce := 1\<rparr>))"

text \<open>
  \<^verbatim>\<open>sort.Search(n, f)\<close> of the Go standard library: the binary search
  \<^verbatim>\<open>i, j := 0, n; for i < j { h := int(uint(i+j) >> 1); if !f(h) { i = h + 1 } else { j = h } }; return i\<close>.
\<close>

function Search_loop :: "(nat \<Rightarrow> bool) \<Rightarrow> nat \<Rightarrow> nat \<Rightarrow> nat" where
  "Search_loop f i j =
     (if i < j then
        (let h = (i + j) div 2 in
         if \<not> f h then Search_loop f (h + 1) j else Search_loop f i h)
      else i)"
  by pat_completeness auto
termination
  by (relation "measure (\<lambda>(f, i, j). j - i)") auto

declare Search_loop.simps [simp del]

definition Search :: "nat \<Rightarrow> (nat \<Rightarrow> bool) \<Rightarrow> nat" where
  "Search n f = Search_loop f 0 n"

text \<open>
  Go's builtin \<^verbatim>\<open>copy(dst[off:], src)\<close> on a buffer \<open>buf\<close>: it copies
  \<open>min (length buf - off) (length src)\<close> elements (with the semantics of memmove when the two
  overlap) and leaves the rest of the buffer as it was.
\<close>

definition go_copy :: "'a list \<Rightarrow> nat \<Rightarrow> 'a list \<Rightarrow> 'a list" where
  "go_copy buf off src = take off buf @ take (length buf - off) src @ drop (off + length src) buf"

definition insertLocked :: "'d MessageQueue \<Rightarrow> 'd TransportMessage \<Rightarrow> 'd MessageQueue" where
  "insertLocked mq msg =
     (let nonce = tm_Nonce msg;
          mq1 = mq\<lparr>pending := (pending mq)(nonce \<mapsto> msg)\<rparr>;
          ns = nonces mq1;
          idx = Search (length ns) (\<lambda>i. ns ! i \<ge> nonce)
      in if idx = length ns then mq1\<lparr>nonces := ns @ [nonce]\<rparr>
         else if ns ! idx = nonce then mq1
         else (let ns1 = ns @ [0];
                   ns2 = go_copy ns1 (idx + 1) (drop idx ns1)
               in mq1\<lparr>nonces := ns2[idx := nonce]\<rparr>))"

definition TryPush ::
  "'d MessageQueue \<Rightarrow> 'd TransportMessage \<Rightarrow> ('d TransportMessage option \<times> bool) \<times> 'd MessageQueue" where
  "TryPush mq msg =
     (let nonce = tm_Nonce msg in
      if nextExpectedNonce mq = 0 then ((None, False), insertLocked mq msg)
      else if nonce = nextExpectedNonce mq then
        ((Some msg, True), mq\<lparr>nextExpectedNonce := nextExpectedNonce mq + 1\<rparr>)
      else if nonce < nextExpectedNonce mq then ((None, False), mq)
      else if pending mq nonce = None then ((None, False), insertLocked mq msg)
      else ((None, False), mq))"

text \<open>
  \<^verbatim>\<open>Pop\<close>. Reading a Go map at a missing key gives the zero value, so the first argument is
  the nil slice of the payload representation.
\<close>

definition Pop ::
  "'d \<Rightarrow> 'd MessageQueue \<Rightarrow> ('d TransportMessage option \<times> bool) \<times> 'd MessageQueue" where
  "Pop nil mq =
     (if nextExpectedNonce mq = 0 then ((None, False), mq)
      else if length (nonces mq) = 0 then ((None, False), mq)
      else
        (let smallest = nonces mq ! 0 in
         if smallest \<noteq> nextExpectedNonce mq then ((None, False), mq)
         else
           (let msg = (case pending mq smallest of Some m \<Rightarrow> m | None \<Rightarrow> zeroTransportMessage nil)
            in ((Some msg, True),
                mq\<lparr>pending := (pending mq)(smallest := None),
                   nonces := drop 1 (nonces mq),
                   nextExpectedNonce := nextExpectedNonce mq + 1\<rparr>))))"

definition PendingNonces :: "'d MessageQueue \<Rightarrow> u64 list" where
  "PendingNonces mq = nonces mq"

definition Reset :: "'d MessageQueue \<Rightarrow> 'd MessageQueue" where
  "Reset mq = mq\<lparr>nextExpectedNonce := 0, pending := Map.empty, nonces := take 0 (nonces mq)\<rparr>"

text \<open>
  The loop of \<^verbatim>\<open>Conn.handleTransportMessage\<close>: \<^verbatim>\<open>Pop\<close> is called until it yields nothing;
  the frames it yields are collected in order.
\<close>

function pop_all :: "'d \<Rightarrow> 'd MessageQueue \<Rightarrow> 'd TransportMessage list \<times> 'd MessageQueue" where
  "pop_all nil mq =
     (let r = Pop nil mq in
      if \<not> snd (fst r) \<or> fst (fst r) = None then ([], mq)
      else (let rest = pop_all nil (snd r) in (the (fst (fst r)) # fst rest, snd rest)))"
  by pat_completeness auto
termination
  by (relation "measure (\<lambda>(nil, mq). length (nonces mq))")
     (auto simp: Pop_def Let_def split: if_splits)

declare pop_all.simps [simp del]

text \<open>
  One step of the feed path of \<^verbatim>\<open>Conn.handleTransportMessage\<close>: the frame is offered to
  \<^verbatim>\<open>TryPush\<close>, a frame it returns is released, then \<^verbatim>\<open>Pop\<close> is called until it yields
  nothing. \<open>feed_all\<close> does this for a list of frames, one after the other, and collects all
  released frames in the order of their release.
\<close>

definition released :: "'d TransportMessage option \<times> bool \<Rightarrow> 'd TransportMessage list" where
  "released r = (if snd r \<and> fst r \<noteq> None then [the (fst r)] else [])"

definition push_and_drain ::
  "'d \<Rightarrow> 'd MessageQueue \<Rightarrow> 'd TransportMessage \<Rightarrow> 'd TransportMessage list \<times> 'd MessageQueue" where
  "push_and_drain nil mq msg =
     (let pushed = TryPush mq msg; popped = pop_all nil (snd pushed)
      in (released (fst pushed) @ fst popped, snd popped))"

fun feed_all ::
  "'d \<Rightarrow> 'd MessageQueue \<Rightarrow> 'd TransportMessage list \<Rightarrow> 'd TransportMessage list \<times> 'd MessageQueue" where
  "feed_all nil mq [] = ([], mq)"
| "feed_all nil mq (m # ms) =
     (let first = push_and_drain nil mq m; rest = feed_all nil (snd first) ms
      in (fst first @ fst rest, snd rest))"

text \<open>
  Frames pushed one after the other, each \<^verbatim>\<open>TryPush\<close> followed by one \<^verbatim>\<open>Pop\<close>; the results
  of both calls are recorded for every frame.
\<close>

fun push_seq ::
  "'d \<Rightarrow> 'd MessageQueue \<Rightarrow> 'd TransportMessage list
    \<Rightarrow> (('d TransportMessage option \<times> bool) \<times> ('d TransportMessage option \<times> bool)) list \<times> 'd MessageQueue" where
  "push_seq nil mq [] = ([], mq)"
| "push_seq nil mq (m # ms) =
     (let pushed = TryPush mq m; popped = Pop nil (snd pushed); rest = push_seq nil (snd popped) ms
      in ((fst pushed, fst popped) # fst rest, snd rest))"

section \<open>Buffers and big-endian integers\<close>

text \<open>
  \<^verbatim>\<open>copy(buf[lo:hi], src)\<close>: the destination is the window \<open>lo..<hi\<close> of the buffer.
\<close>

definition copy_into :: "'a list \<Rightarrow> nat \<Rightarrow> nat \<Rightarrow> 'a list \<Rightarrow> 'a list" where
  "copy_into buf lo hi src = take lo buf @ go_copy (take (hi - lo) (drop lo buf)) 0 src @ drop hi buf"

text \<open>\<^verbatim>\<open>make([]byte, n)\<close>: a zeroed buffer.\<close>

definition make_bytes :: "nat \<Rightarrow> bytes" where
  "make_bytes n = replicate n 0"

text \<open>\<^verbatim>\<open>binary.BigEndian.PutUint64\<close> and \<^verbatim>\<open>binary.BigEndian.Uint64\<close> of the Go standard library.\<close>

definition be_u64 :: "u64 \<Rightarrow> bytes" where
  "be_u64 v = [ucast (drop_bit 56 v), ucast (drop_bit 48 v), ucast (drop_bit 40 v),
               ucast (drop_bit 32 v), ucast (drop_bit 24 v), ucast (drop_bit 16 v),
               ucast (drop_bit 8 v), ucast v]"

definition PutUint64 :: "bytes \<Rightarrow> nat \<Rightarrow> u64 \<Rightarrow> bytes" where
  "PutUint64 buf off v = copy_into buf off (off + 8) (be_u64 v)"

definition Uint64 :: "bytes \<Rightarrow> u64" where
  "Uint64 b = (push_bit 56 (ucast (b ! 0)) OR push_bit 48 (ucast (b ! 1)) OR push_bit 40 (ucast (b ! 2))
      OR push_bit 32 (ucast (b ! 3)) OR push_bit 24 (ucast (b ! 4)) OR push_bit 16 (ucast (b ! 5))
      OR push_bit 8 (ucast (b ! 6)) OR ucast (b ! 7))"

section \<open>message/recipient.go: the address\<close>

definition RecipientLength :: nat where "RecipientLength = 96"

record Recipient =
  ClientIdentity :: bytes
  ClientEncryptionKey :: bytes
  Gateway :: bytes

text \<open>The three fields are arrays \<^verbatim>\<open>[32]byte\<close>.\<close>

definition wf_Recipient :: "Recipient \<Rightarrow> bool" where
  "wf_Recipient r \<longleftrightarrow>
     length (ClientIdentity r) = 32 \<and> length (ClientEncryptionKey r) = 32 \<and> length (Gateway r) = 32"

datatype codec_error =
    RecipientInvalidLength nat
  | EncodeNilMessage
  | MissingConnectionPayload
  | MissingTransportPayload
  | UnknownType byte
  | DecodeShortBuffer
  | ConnectionPayloadTooShort
  | ConnectionRecipientTruncated
  | ParseRecipientFailed codec_error
  | InvalidRecipientFlag byte
  | MissingPeerIDBytes
  | ParsePeerIDFailed
  | TransportPayloadTooShort
  | SubstreamPayloadTooShort
  | UnexpectedControlPayload
  | UnknownSubstreamType byte

definition RecipientFromBytes :: "bytes \<Rightarrow> codec_error + Recipient" where
  "RecipientFromBytes b =
     (if length b \<noteq> RecipientLength then Inl (RecipientInvalidLength (length b))
      else Inr \<lparr>ClientIdentity = take 32 b,
                ClientEncryptionKey = take 32 (drop 32 b),
                Gateway = take 32 (drop 64 b)\<rparr>)"

definition Bytes :: "Recipient \<Rightarrow> bytes" where
  "Bytes r =
     (let out = make_bytes RecipientLength;
          out = copy_into out 0 32 (ClientIdentity r);
          out = copy_into out 32 64 (ClientEncryptionKey r);
          out = go_copy out 64 (Gateway r)
      in out)"

section \<open>message: the wire codec\<close>

definition MessageTypeConnectionRequest :: byte where "MessageTypeConnectionRequest = 0"

definition MessageTypeConnectionResponse :: byte where "MessageTypeConnectionResponse = 1"

definition MessageTypeTransport :: byte where "MessageTypeTransport = 2"

definition SubstreamMessageOpenRequest :: byte where "SubstreamMessageOpenRequest = 0"

definition SubstreamMessageOpenResponse :: byte where "SubstreamMessageOpenResponse = 1"

definition SubstreamMessageClose :: byte where "SubstreamMessageClose = 2"

definition SubstreamMessageData :: byte where "SubstreamMessageData = 3"

text \<open>\<^verbatim>\<open>peer.ID\<close> is a Go string holding the bytes of the identity.\<close>

record ConnectionMessage =
  cm_PeerID :: bytes
  cm_Recipient :: "Recipient option"
  cm_ID :: bytes

record 'd Message =
  msg_Type :: byte
  msg_Connection :: "ConnectionMessage option"
  msg_Transport :: "'d TransportMessage option"

definition encodeConnectionMessage :: "ConnectionMessage \<Rightarrow> bytes" where
  "encodeConnectionMessage cm =
     (let peerBytes = cm_PeerID cm;
          flag = (case cm_Recipient cm of None \<Rightarrow> 0 | Some r \<Rightarrow> 1);
          recipientBytes = (case cm_Recipient cm of None \<Rightarrow> [] | Some r \<Rightarrow> Bytes r);
          out = make_bytes (ConnectionIDLength + 1 + length recipientBytes + length peerBytes);
          out = copy_into out 0 ConnectionIDLength (cm_ID cm);
          out = out[ConnectionIDLength := flag];
          offset = ConnectionIDLength + 1;
          out = go_copy out offset recipientBytes;
          offset = offset + length recipientBytes;
          out = go_copy out offset peerBytes
      in out)"

text \<open>
  \<^verbatim>\<open>peer.IDFromBytes\<close> belongs to go-libp2p, not to this repository: the decoder takes it as the
  parameter \<open>idFromBytes\<close>.
\<close>

definition decodeConnectionMessage ::
  "(bytes \<Rightarrow> 'e + bytes) \<Rightarrow> bytes \<Rightarrow> codec_error + ConnectionMessage" where
  "decodeConnectionMessage idFromBytes data =
     (let minLen = ConnectionIDLength + 1 in
      if length data < minLen then Inl ConnectionPayloadTooShort
      else
        (let id = take ConnectionIDLength data;
             flag = data ! ConnectionIDLength;
             cursor = ConnectionIDLength + 1;
             parsed =
               (if flag = 1 then
                  (if length data < cursor + RecipientLength then Inl ConnectionRecipientTruncated
                   else (case RecipientFromBytes (take RecipientLength (drop cursor data)) of
                           Inl e \<Rightarrow> Inl (ParseRecipientFailed e)
                         | Inr rec \<Rightarrow> Inr (Some rec, cursor + RecipientLength)))
                else if flag \<noteq> 0 then Inl (InvalidRecipientFlag flag)
                else Inr (None, cursor))
         in case parsed of
              Inl e \<Rightarrow> Inl e
            | Inr (recipient, cursor) \<Rightarrow>
                if length data \<le> cursor then Inl MissingPeerIDBytes
                else (case idFromBytes (drop cursor data) of
                        Inl e \<Rightarrow> Inl ParsePeerIDFailed
                      | Inr peerID \<Rightarrow>
                          Inr \<lparr>cm_PeerID = peerID, cm_Recipient = recipient, cm_ID = id\<rparr>)))"

definition encodeSubstreamMessage :: "bytes SubstreamMessage \<Rightarrow> bytes" where
  "encodeSubstreamMessage sm =
     (let out = make_bytes (SubstreamIDLength + 1 + length (sm_Data sm));
          out = copy_into out 0 SubstreamIDLength (sm_ID sm);
          out = out[SubstreamIDLength := sm_Type sm];
          out = go_copy out (SubstreamIDLength + 1) (sm_Data sm)
      in out)"

definition decodeSubstreamMessage :: "bytes \<Rightarrow> codec_error + bytes SubstreamMessage" where
  "decodeSubstreamMessage data =
     (if length data < SubstreamIDLength + 1 then Inl SubstreamPayloadTooShort
      else
        (let id = take SubstreamIDLength data;
             msgType = data ! SubstreamIDLength;
             payload = drop (SubstreamIDLength + 1) data
         in if msgType = SubstreamMessageOpenRequest \<or> msgType = SubstreamMessageOpenResponse
                 \<or> msgType = SubstreamMessageClose then
              (if length payload \<noteq> 0 then Inl UnexpectedControlPayload
               else Inr \<lparr>sm_ID = id, sm_Type = msgType, sm_Data = []\<rparr>)
            else if msgType = SubstreamMessageData then
              Inr \<lparr>sm_ID = id, sm_Type = msgType, sm_Data = go_copy (make_bytes (length payload)) 0 payload\<rparr>
            else Inl (UnknownSubstreamType msgType)))"

definition encodeTransportMessage :: "bytes TransportMessage \<Rightarrow> bytes" where
  "encodeTransportMessage tm =
     (let substreamBytes = encodeSubstreamMessage (tm_Message tm);
          out = make_bytes (8 + ConnectionIDLength + length substreamBytes);
          out = PutUint64 out 0 (tm_Nonce tm);
          out = copy_into out 8 (8 + ConnectionIDLength) (tm_ID tm);
          out = go_copy out (8 + ConnectionIDLength) substreamBytes
      in out)"

definition decodeTransportMessage :: "bytes \<Rightarrow> codec_error + bytes TransportMessage" where
  "decodeTransportMessage data =
     (let minLen = 8 + ConnectionIDLength + SubstreamIDLength + 1 in
      if length data < minLen then Inl TransportPayloadTooShort
      else
        (let nonce = Uint64 (take 8 data);
             id = take ConnectionIDLength (drop 8 data)
         in case decodeSubstreamMessage (drop (8 + ConnectionIDLength) data) of
              Inl e \<Rightarrow> Inl e
            | Inr substream \<Rightarrow> Inr \<lparr>tm_Nonce = nonce, tm_Message = substream, tm_ID = id\<rparr>))"

text \<open>\<^verbatim>\<open>Encode\<close> takes a pointer: \<open>None\<close> is the nil message.\<close>

definition Encode :: "bytes Message option \<Rightarrow> codec_error + bytes" where
  "Encode m =
     (case m of
        None \<Rightarrow> Inl EncodeNilMessage
      | Some msg \<Rightarrow>
          (let payload =
             (if msg_Type msg = MessageTypeConnectionRequest \<or> msg_Type msg = MessageTypeConnectionResponse then
                (case msg_Connection msg of
                   None \<Rightarrow> Inl MissingConnectionPayload
                 | Some cm \<Rightarrow> Inr (encodeConnectionMessage cm))
              else if msg_Type msg = MessageTypeTransport then
                (case msg_Transport msg of
                   None \<Rightarrow> Inl MissingTransportPayload
                 | Some tm \<Rightarrow> Inr (encodeTransportMessage tm))
              else Inl (UnknownType (msg_Type msg)))
           in case payload of
                Inl e \<Rightarrow> Inl e
              | Inr payload \<Rightarrow>
                  (let out = make_bytes (1 + length payload);
                       out = out[0 := msg_Type msg];
                       out = go_copy out 1 payload
                   in Inr out)))"

definition Decode :: "(bytes \<Rightarrow> 'e + bytes) \<Rightarrow> bytes \<Rightarrow> codec_error + bytes Message" where
  "Decode idFromBytes data =
     (if length data < 1 then Inl DecodeShortBuffer
      else
        (let msgType = data ! 0; payload = drop 1 data in
         if msgType = MessageTypeConnectionRequest \<or> msgType = MessageTypeConnectionResponse then
           (case decodeConnectionMessage idFromBytes payload of
              Inl e \<Rightarrow> Inl e
            | Inr cm \<Rightarrow> Inr \<lparr>msg_Type = msgType, msg_Connection = Some cm, msg_Transport = None\<rparr>)
         else if msgType = MessageTypeTransport then
           (case decodeTransportMessage payload of
              Inl e \<Rightarrow> Inl e
            | Inr tm \<Rightarrow> Inr \<lparr>msg_Type = msgType, msg_Connection = None, msg_Transport = Some tm\<rparr>)
         else Inl (UnknownType msgType)))"

text \<open>
  Well-formed top-level messages: the tag is one of the three message types, only the payload of
  that type is present, the identifiers are 32 bytes long, the keys of a recipient are 32 bytes
  long, the peer identity is non-empty and accepted unchanged by \<open>idFromBytes\<close>, the substream tag
  is one of the four substream types and the payload is empty unless the tag is Data.
\<close>

definition wf_ConnectionMessage :: "(bytes \<Rightarrow> 'e + bytes) \<Rightarrow> ConnectionMessage \<Rightarrow> bool" where
  "wf_ConnectionMessage idFromBytes cm \<longleftrightarrow>
     length (cm_ID cm) = ConnectionIDLength
     \<and> (case cm_Recipient cm of None \<Rightarrow> True | Some r \<Rightarrow> wf_Recipient r)
     \<and> cm_PeerID cm \<noteq> []
     \<and> idFromBytes (cm_PeerID cm) = Inr (cm_PeerID cm)"

definition wf_SubstreamMessage :: "bytes SubstreamMessage \<Rightarrow> bool" where
  "wf_SubstreamMessage sm \<longleftrightarrow>
     length (sm_ID sm) = SubstreamIDLength
     \<and> sm_Type sm \<le> SubstreamMessageData
     \<and> (sm_Type sm = SubstreamMessageData \<or> sm_Data sm = [])"

definition wf_TransportMessage :: "bytes TransportMessage \<Rightarrow> bool" where
  "wf_TransportMessage tm \<longleftrightarrow>
     length (tm_ID tm) = ConnectionIDLength \<and> wf_SubstreamMessage (tm_Message tm)"

definition wf_Message :: "(bytes \<Rightarrow> 'e + bytes) \<Rightarrow> bytes Message \<Rightarrow> bool" where
  "wf_Message idFromBytes m \<longleftrightarrow>
     (if msg_Type m = MessageTypeConnectionRequest \<or> msg_Type m = MessageTypeConnectionResponse then
        msg_Transport m = None
        \<and> (case msg_Connection m of None \<Rightarrow> False | Some cm \<Rightarrow> wf_ConnectionMessage idFromBytes cm)
      else if msg_Type m = MessageTypeTransport then
        msg_Connection m = None
        \<and> (case msg_Transport m of None \<Rightarrow> False | Some tm \<Rightarrow> wf_TransportMessage tm)
      else False)"

section \<open>Peer identities: the library check behind \<^verbatim>\<open>peer.IDFromBytes\<close>\<close>

text \<open>
  \<^verbatim>\<open>peer.IDFromBytes\<close> (go-libp2p) accepts the bytes of a multihash and returns them unchanged;
  \<^verbatim>\<open>multihash.Cast\<close> (go-multihash) requires at least two bytes, an unsigned varint code, an
  unsigned varint digest length and a digest of exactly that length; \<^verbatim>\<open>varint.FromUvarint\<close>
  (go-varint) reads at most nine bytes, in minimal encoding. These libraries are imported by the
  repository and are not part of it; the definitions below follow them and are used as the
  concrete instance of the parameter \<open>idFromBytes\<close>.
\<close>

fun FromUvarint_loop :: "bytes \<Rightarrow> nat \<Rightarrow> nat \<Rightarrow> nat \<Rightarrow> (nat \<times> nat) option" where
  "FromUvarint_loop [] i x s = None"
| "FromUvarint_loop (b # bs) i x s =
     (if (i = 8 \<and> b \<ge> 0x80) \<or> i \<ge> 9 then None
      else if b < 0x80 then (if b = 0 \<and> s > 0 then None else Some (x + unat b * 2 ^ s, i + 1))
      else FromUvarint_loop bs (i + 1) (x + unat (b AND 0x7f) * 2 ^ s) (s + 7))"

definition FromUvarint :: "bytes \<Rightarrow> (nat \<times> nat) option" where
  "FromUvarint buf = FromUvarint_loop buf 0 0 0"

definition multihash_Cast :: "bytes \<Rightarrow> bool" where
  "multihash_Cast buf =
     (if length buf < 2 then False
      else (case FromUvarint buf of
              None \<Rightarrow> False
            | Some (code, n1) \<Rightarrow>
                (case FromUvarint (drop n1 buf) of
                   None \<Rightarrow> False
                 | Some (len, n2) \<Rightarrow>
                     len \<le> 2 ^ 31 - 1 \<and> len \<le> length (drop (n1 + n2) buf)
                     \<and> n1 + n2 + len = length buf)))"

datatype multihash_error = InvalidMultihash

definition IDFromBytes :: "bytes \<Rightarrow> multihash_error + bytes" where
  "IDFromBytes b = (if multihash_Cast b then Inr b else Inl InvalidMultihash)"

section \<open>mixnet: the gateway requests\<close>

definition requestTagSend :: byte where "requestTagSend = 0x00"

definition requestTagSelfAddress :: byte where "requestTagSelfAddress = 0x03"

definition serializeSelfAddressRequest :: bytes where
  "serializeSelfAddressRequest = [requestTagSelfAddress]"

text \<open>\<^verbatim>\<open>uint64(len(payload))\<close>: the length of a Go slice is a non-negative \<^verbatim>\<open>int\<close>.\<close>

definition serializeSendRequest :: "Recipient \<Rightarrow> bytes \<Rightarrow> bytes" where
  "serializeSendRequest recipient payload =
     (let size = 1 + RecipientLength + 8 + 8 + length payload;
          buf = make_bytes size;
          buf = buf[0 := requestTagSend];
          buf = copy_into buf 1 (1 + RecipientLength) (Bytes recipient);
          offset = 1 + RecipientLength;
          offset = offset + 8;
          buf = PutUint64 buf offset (of_nat (length payload));
          offset = offset + 8;
          buf = go_copy buf offset payload
      in buf)"

text \<open>The number that a byte string denotes when read big-endian.\<close>

definition be_value :: "bytes \<Rightarrow> nat" where
  "be_value bs = foldl (\<lambda>a b. a * 256 + unat b) 0 bs"

section \<open>message/recipient.go: the textual form of an address\<close>

text \<open>\<^verbatim>\<open>strings.Split(s, sep)\<close> for a separator of one character.\<close>

fun Split :: "string \<Rightarrow> char \<Rightarrow> string list" where
  "Split [] sep = [[]]"
| "Split (c # cs) sep =
     (if c = sep then [] # Split cs sep
      else (case Split cs sep of [] \<Rightarrow> [[c]] | p # ps \<Rightarrow> (c # p) # ps))"

text \<open>
  \<^verbatim>\<open>base58.Encode\<close> and \<^verbatim>\<open>base58.Decode\<close> belong to the library \<^verbatim>\<open>mr-tron/base58\<close>, not to the
  repository: the functions below take them as the parameters \<open>b58encode\<close> and \<open>b58decode\<close>.
\<close>

datatype 'e base58_error = Base58Failed 'e | Expected32Bytes nat

datatype 'e recipient_error =
    ExpectedSingleAt
  | ExpectedSingleDot
  | DecodeIdentityFailed "'e base58_error"
  | DecodeEncKeyFailed "'e base58_error"
  | DecodeGatewayFailed "'e base58_error"

definition decodeBase58To32 :: "(string \<Rightarrow> 'e + bytes) \<Rightarrow> string \<Rightarrow> 'e base58_error + bytes" where
  "decodeBase58To32 b58decode s =
     (case b58decode s of
        Inl err \<Rightarrow> Inl (Base58Failed err)
      | Inr decoded \<Rightarrow>
          if length decoded \<noteq> 32 then Inl (Expected32Bytes (length decoded))
          else Inr (go_copy (make_bytes 32) 0 decoded))"

definition ParseRecipient :: "(string \<Rightarrow> 'e + bytes) \<Rightarrow> string \<Rightarrow> 'e recipient_error + Recipient" where
  "ParseRecipient b58decode s =
     (let parts = Split s CHR ''@'' in
      if length parts \<noteq> 2 then Inl ExpectedSingleAt
      else
        (let clientParts = Split (parts ! 0) CHR ''.'' in
         if length clientParts \<noteq> 2 then Inl ExpectedSingleDot
         else
           (case decodeBase58To32 b58decode (clientParts ! 0) of
              Inl err \<Rightarrow> Inl (DecodeIdentityFailed err)
            | Inr ident \<Rightarrow>
                (case decodeBase58To32 b58decode (clientParts ! 1) of
                   Inl err \<Rightarrow> Inl (DecodeEncKeyFailed err)
                 | Inr enc \<Rightarrow>
                     (case decodeBase58To32 b58decode (parts ! 1) of
                        Inl err \<Rightarrow> Inl (DecodeGatewayFailed err)
                      | Inr gateway \<Rightarrow>
                          Inr \<lparr>ClientIdentity = ident, ClientEncryptionKey = enc,
                               Gateway = gateway\<rparr>)))))"

definition Recipient_String :: "(bytes \<Rightarrow> string) \<Rightarrow> Recipient \<Rightarrow> string" where
  "Recipient_String b58encode r =
     b58encode (ClientIdentity r) @ [CHR ''.''] @ b58encode (ClientEncryptionKey r) @ [CHR ''@'']
       @ b58encode (Gateway r)"

text \<open>
  The base58 encoding with the Bitcoin alphabet, the default alphabet of \<^verbatim>\<open>mr-tron/base58\<close>:
  every leading zero byte becomes the character \<open>1\<close> and the rest is the number that the bytes
  denote, written in base 58. It is the concrete instance of the parameters \<open>b58encode\<close> and
  \<open>b58decode\<close>.
\<close>

definition b58_alphabet :: string where
  "b58_alphabet = ''123456789ABCDEFGHJKLMNPQRSTUVWXYZabcdefghijkmnopqrstuvwxyz''"

function b58_digits :: "nat \<Rightarrow> string" where
  "b58_digits n = (if n = 0 then [] else b58_digits (n div 58) @ [b58_alphabet ! (n mod 58)])"
  by pat_completeness auto

termination
  by (relation "measure (\<lambda>n. n)") auto

declare b58_digits.simps [simp del]

definition base58_Encode :: "bytes \<Rightarrow> string" where
  "base58_Encode bs = replicate (length (takeWhile (\<lambda>b. b = 0) bs)) CHR ''1'' @ b58_digits (be_value bs)"

fun b58_index :: "string \<Rightarrow> char \<Rightarrow> nat" where
  "b58_index [] c = 0"
| "b58_index (a # as) c = (if a = c then 0 else Suc (b58_index as c))"

definition b58_value :: "string \<Rightarrow> nat" where
  "b58_value s = foldl (\<lambda>a c. a * 58 + b58_index b58_alphabet c) 0 s"

function nat_bytes :: "nat \<Rightarrow> bytes" where
  "nat_bytes n = (if n = 0 then [] else nat_bytes (n div 256) @ [of_nat (n mod 256)])"
  by pat_completeness auto

termination
  by (relation "measure (\<lambda>n. n)") auto

declare nat_bytes.simps [simp del]

datatype base58_failure = ZeroLengthString | InvalidBase58Digit

definition base58_Decode :: "string \<Rightarrow> base58_failure + bytes" where
  "base58_Decode s =
     (if s = [] then Inl ZeroLengthString
      else if list_ex (\<lambda>c. c \<notin> set b58_alphabet) s then Inl InvalidBase58Digit
      else Inr (replicate (length (takeWhile (\<lambda>c. c = CHR ''1'') s)) 0 @ nat_bytes (b58_value s)))"

section \<open>transport/transport.go: connections and pending dials\<close>

text \<open>
  The transport keeps two indices under one lock: the live connections and the pending dials,
  both keyed by \<^verbatim>\<open>connKey(id) = hex.EncodeToString(id[:])\<close>.
\<close>

definition hex_digit :: "nat \<Rightarrow> char" where
  "hex_digit n = ''0123456789abcdef'' ! n"

definition hex_EncodeToString :: "bytes \<Rightarrow> string" where
  "hex_EncodeToString bs = concat (map (\<lambda>b. [hex_digit (unat b div 16), hex_digit (unat b mod 16)]) bs)"

definition connKey :: "bytes \<Rightarrow> string" where
  "connKey cid = hex_EncodeToString cid"

record Conn =
  conn_id :: bytes
  conn_remotePeer :: bytes
  conn_remoteRecipient :: Recipient
  conn_queue :: "bytes MessageQueue"

text \<open>
  \<^verbatim>\<open>dialState\<close>: the remote recipient and the result channel (capacity 1), which holds at most
  one connection and may be closed.
\<close>

record dialState =
  ds_remoteRecipient :: Recipient
  ds_resultCh :: "Conn option"
  ds_closed :: bool

record Transport =
  connections :: "string \<rightharpoonup> Conn"
  pendingDials :: "string \<rightharpoonup> dialState"

datatype transport_error =
    ConnectionIDCollision
  | RequestMissingRecipient
  | ConnectionAlreadyExists
  | NoPendingDial
  | NewConnFailed
  | QueueArmedTwice
  | SendCancelled

text \<open>\<^verbatim>\<open>newWithMixnet\<close> starts with empty indices.\<close>

definition newTransport :: Transport where
  "newTransport = \<lparr>connections = Map.empty, pendingDials = Map.empty\<rparr>"

text \<open>The registration step of \<^verbatim>\<open>Dial\<close>, under the lock, for the generated \<open>connID\<close>.\<close>

definition Dial_register :: "Transport \<Rightarrow> bytes \<Rightarrow> Recipient \<Rightarrow> transport_error option \<times> Transport" where
  "Dial_register t connID recipient =
     (let state = \<lparr>ds_remoteRecipient = recipient, ds_resultCh = None, ds_closed = False\<rparr>;
          key = connKey connID
      in if pendingDials t key \<noteq> None then (Some ConnectionIDCollision, t)
         else (None, t\<lparr>pendingDials := (pendingDials t)(key \<mapsto> state)\<rparr>))"

definition removePendingDial :: "Transport \<Rightarrow> string \<Rightarrow> Transport" where
  "removePendingDial t key =
     (case pendingDials t key of
        Some state \<Rightarrow> t\<lparr>pendingDials := (pendingDials t)(key := None)\<rparr>
      | None \<Rightarrow> t)"

definition removeConnection :: "Transport \<Rightarrow> bytes \<Rightarrow> Transport" where
  "removeConnection t cid = t\<lparr>connections := (connections t)(connKey cid := None)\<rparr>"

text \<open>
  \<^verbatim>\<open>newConn\<close> fails only when the multiaddr library rejects the address; \<^verbatim>\<open>sendMixnetMessage\<close>
  fails only when the transport context is cancelled. Both outcomes are inputs of the handlers:
  \<open>newConnOk\<close> and \<open>sendOk\<close>. A failed send closes the connection, which removes it from the
  index.
\<close>

definition handleConnectionRequest ::
  "Transport \<Rightarrow> ConnectionMessage \<Rightarrow> bool \<Rightarrow> bool \<Rightarrow> transport_error option \<times> Transport" where
  "handleConnectionRequest t connMsg newConnOk sendOk =
     (case cm_Recipient connMsg of
        None \<Rightarrow> (Some RequestMissingRecipient, t)
      | Some recipient \<Rightarrow>
          (let key = connKey (cm_ID connMsg) in
           if connections t key \<noteq> None then (Some ConnectionAlreadyExists, t)
           else
             (case SetConnectionMessageReceived New of
                None \<Rightarrow> (Some QueueArmedTwice, t)
              | Some queue \<Rightarrow>
                  if \<not> newConnOk then (Some NewConnFailed, t)
                  else
                    (let conn = \<lparr>conn_id = cm_ID connMsg, conn_remotePeer = cm_PeerID connMsg,
                                   conn_remoteRecipient = recipient, conn_queue = queue\<rparr>;
                         t1 = t\<lparr>connections := (connections t)(key \<mapsto> conn)\<rparr>
                     in if \<not> sendOk then (Some SendCancelled, removeConnection t1 (conn_id conn))
                        else (None, t1)))))"

text \<open>
  In \<^verbatim>\<open>handleConnectionResponse\<close> the connection is offered to the result channel of the dial;
  when the channel does not take it (\<open>delivered\<close> is false) the connection is closed.
\<close>

definition handleConnectionResponse ::
  "Transport \<Rightarrow> ConnectionMessage \<Rightarrow> bool \<Rightarrow> bool \<Rightarrow> transport_error option \<times> Transport" where
  "handleConnectionResponse t connMsg newConnOk delivered =
     (let key = connKey (cm_ID connMsg) in
      case pendingDials t key of
        None \<Rightarrow> (Some NoPendingDial, t)
      | Some state \<Rightarrow>
          (let t1 = t\<lparr>pendingDials := (pendingDials t)(key := None)\<rparr> in
           case SetConnectionMessageReceived New of
             None \<Rightarrow> (Some QueueArmedTwice, t1)
           | Some queue \<Rightarrow>
               if \<not> newConnOk then (Some NewConnFailed, t1)
               else
                 (let conn = \<lparr>conn_id = cm_ID connMsg, conn_remotePeer = cm_PeerID connMsg,
                                conn_remoteRecipient = ds_remoteRecipient state, conn_queue = queue\<rparr>;
                      t2 = t1\<lparr>connections := (connections t1)(key \<mapsto> conn)\<rparr>
                  in if delivered then (None, t2)
                     else (None, removeConnection t2 (conn_id conn)))))"

text \<open>\<^verbatim>\<open>Transport.Close\<close> empties both indices.\<close>

definition Transport_Close :: "Transport \<Rightarrow> Transport" where
  "Transport_Close t = t\<lparr>connections := Map.empty, pendingDials := Map.empty\<rparr>"

text \<open>
  The steps of the transport, each taken atomically: the registration of a dial, the removal of
  a pending dial (timeout, cancellation, failed send), the two handshake handlers, the close of
  a connection and the close of the transport.
\<close>

datatype event =
    EvDial bytes Recipient
  | EvRemovePendingDial bytes
  | EvConnectionRequest ConnectionMessage bool bool
  | EvConnectionResponse ConnectionMessage bool bool
  | EvConnClose bytes
  | EvTransportClose

fun step :: "Transport \<Rightarrow> event \<Rightarrow> Transport" where
  "step t (EvDial connID recipient) = snd (Dial_register t connID recipient)"
| "step t (EvRemovePendingDial connID) = removePendingDial t (connKey connID)"
| "step t (EvConnectionRequest connMsg newConnOk sendOk) =
     snd (handleConnectionRequest t connMsg newConnOk sendOk)"
| "step t (EvConnectionResponse connMsg newConnOk delivered) =
     snd (handleConnectionResponse t connMsg newConnOk delivered)"
| "step t (EvConnClose connID) = removeConnection t connID"
| "step t EvTransportClose = Transport_Close t"

definition run :: "Transport \<Rightarrow> event list \<Rightarrow> Transport" where
  "run t es = foldl step t es"

text \<open>
  A step uses a fresh identifier when the identifier of a dial is not the identifier of a live
  connection and the identifier of a handled request is not the identifier of a pending dial.
\<close>

fun fresh_id :: "Transport \<Rightarrow> event \<Rightarrow> bool" where
  "fresh_id t (EvDial connID recipient) = (connections t (connKey connID) = None)"
| "fresh_id t (EvConnectionRequest connMsg newConnOk sendOk) =
     (pendingDials t (connKey (cm_ID connMsg)) = None)"
| "fresh_id t e = True"

fun fresh_run :: "Transport \<Rightarrow> event list \<Rightarrow> bool" where
  "fresh_run t [] = True"
| "fresh_run t (e # es) = (fresh_id t e \<and> fresh_run (step t e) es)"

section \<open>transport/substream.go and transport/conn.go: substreams\<close>

text \<open>
  A \<^verbatim>\<open>Substream\<close> object. The channel \<^verbatim>\<open>inbound\<close> (capacity 32) is the list of the chunks it
  holds, oldest first, and a flag that tells whether it has been closed; \<^verbatim>\<open>channelOnce\<close> tells
  whether the \<^verbatim>\<open>sync.Once\<close> has run.
\<close>

record Substream =
  ss_id :: bytes
  inbound :: "bytes list"
  inbound_closed :: bool
  buffer :: bytes
  localClosed :: bool
  remoteClosed :: bool
  channelOnce :: bool

definition inbound_capacity :: nat where "inbound_capacity = 32"

definition newSubstream :: "bytes \<Rightarrow> Substream" where
  "newSubstream sid =
     \<lparr>ss_id = sid, inbound = [], inbound_closed = False, buffer = [],
      localClosed = False, remoteClosed = False, channelOnce = False\<rparr>"

text \<open>
  The result of \<^verbatim>\<open>Read(p)\<close>: the bytes copied into \<open>p\<close> with a nil error, or \<^verbatim>\<open>(0, io.EOF)\<close>, or
  the call waits on the empty open channel. The argument \<open>n\<close> is \<^verbatim>\<open>len(p)\<close>.
\<close>

datatype read_result = ReadBytes bytes | ReadEOF | ReadBlocks

definition Read_copy :: "Substream \<Rightarrow> nat \<Rightarrow> read_result \<times> Substream" where
  "Read_copy s n = (ReadBytes (take n (buffer s)), s\<lparr>buffer := drop n (buffer s)\<rparr>)"

definition Read :: "Substream \<Rightarrow> nat \<Rightarrow> read_result \<times> Substream" where
  "Read s n =
     (if n = 0 then (ReadBytes [], s)
      else if length (buffer s) = 0 then
        (case inbound s of
           [] \<Rightarrow> if inbound_closed s then (ReadEOF, s) else (ReadBlocks, s)
         | data # rest \<Rightarrow>
             (let s1 = s\<lparr>inbound := rest\<rparr> in
              if length data = 0 then (ReadBytes [], s1)
              else Read_copy (s1\<lparr>buffer := buffer s1 @ data\<rparr>) n))
      else Read_copy s n)"

text \<open>
  A call either returns or waits forever unless another task acts; \<open>Blocks\<close> carries the state
  at the point where the call waits.
\<close>

datatype 'a outcome = Returns 'a | Blocks 'a

text \<open>
  \<^verbatim>\<open>pushData\<close>. The \<^verbatim>\<open>select\<close> has two cases: the close channel of the connection (ready when
  the connection is closed) and the send on \<^verbatim>\<open>inbound\<close> (ready when the channel has room; a send
  on a closed channel panics, and the panic is recovered). When both are ready Go picks one:
  \<open>pick\<close> tells whether it picks the close channel.
\<close>

definition pushData :: "Substream \<Rightarrow> bool \<Rightarrow> bool \<Rightarrow> bytes \<Rightarrow> Substream outcome" where
  "pushData s connClosed pick data =
     (if remoteClosed s \<or> localClosed s then Returns s
      else
        (let buf = go_copy (make_bytes (length data)) 0 data;
             sendReady = (inbound_closed s \<or> length (inbound s) < inbound_capacity)
         in if connClosed \<and> (\<not> sendReady \<or> pick) then Returns s
            else if sendReady then
              (if inbound_closed s then Returns s
               else Returns (s\<lparr>inbound := inbound s @ [buf]\<rparr>))
            else Blocks s))"

definition remoteClose :: "Substream \<Rightarrow> Substream" where
  "remoteClose s =
     (if remoteClosed s then s
      else (let s1 = s\<lparr>remoteClosed := True\<rparr> in
            if channelOnce s1 then s1 else s1\<lparr>channelOnce := True, inbound_closed := True\<rparr>))"

text \<open>
  The stream side of a \<^verbatim>\<open>Conn\<close>, with what it uses of its transport (the context and the
  outbound channel of the mixnet). Substream objects live in a store and are referred to by
  their address (0 is nil); the byte arrays behind the slices that \<^verbatim>\<open>Write\<close> handles live in
  \<open>heap\<close>, and \<open>next_addr\<close> is the next address that \<^verbatim>\<open>make\<close> hands out. The payload of an
  outbound message is the address of its array.
\<close>

record ConnState =
  ctx_done :: bool
  mixnetOutbound :: "(Recipient \<times> nat Message) list"
  mixnetOutbound_cap :: nat
  c_closed :: bool
  c_nonce :: u64
  c_id :: bytes
  c_remoteRecipient :: Recipient
  streams :: "string \<rightharpoonup> nat"
  pendingOutbound :: "string \<rightharpoonup> nat"
  substreams :: "nat \<Rightarrow> Substream"
  heap :: "nat \<Rightarrow> bytes"
  next_addr :: nat

datatype stream_error = StreamClosed | Canceled

definition substreamKey :: "bytes \<Rightarrow> string" where
  "substreamKey sid = hex_EncodeToString sid"

text \<open>
  \<^verbatim>\<open>sendMixnetMessage\<close>: a \<^verbatim>\<open>select\<close> between the cancelled context and the send on the outbound
  channel; \<open>pick\<close> tells whether the context is picked when both are ready.
\<close>

definition sendMixnetMessage ::
  "ConnState \<Rightarrow> Recipient \<Rightarrow> nat Message \<Rightarrow> bool \<Rightarrow> (stream_error option \<times> ConnState) outcome" where
  "sendMixnetMessage c recipient msg pick =
     (let room = (length (mixnetOutbound c) < mixnetOutbound_cap c) in
      if ctx_done c \<and> (\<not> room \<or> pick) then Returns (Some Canceled, c)
      else if room then Returns (None, c\<lparr>mixnetOutbound := mixnetOutbound c @ [(recipient, msg)]\<rparr>)
      else Blocks (None, c))"

definition sendSubstreamMessage ::
  "ConnState \<Rightarrow> nat SubstreamMessage \<Rightarrow> bool \<Rightarrow> (stream_error option \<times> ConnState) outcome" where
  "sendSubstreamMessage c sub pick =
     (let nonce = c_nonce c + 1;
          c1 = c\<lparr>c_nonce := nonce\<rparr>;
          msg = \<lparr>msg_Type = MessageTypeTransport, msg_Connection = None,
                 msg_Transport = Some \<lparr>tm_Nonce = nonce, tm_Message = sub, tm_ID = c_id c1\<rparr>\<rparr>
      in sendMixnetMessage c1 (c_remoteRecipient c1) msg pick)"

definition sendControl ::
  "ConnState \<Rightarrow> bytes \<Rightarrow> byte \<Rightarrow> bool \<Rightarrow> (stream_error option \<times> ConnState) outcome" where
  "sendControl c sid typ pick =
     sendSubstreamMessage c \<lparr>sm_ID = sid, sm_Type = typ, sm_Data = 0\<rparr> pick"

definition sendData ::
  "ConnState \<Rightarrow> bytes \<Rightarrow> nat \<Rightarrow> bool \<Rightarrow> (stream_error option \<times> ConnState) outcome" where
  "sendData c sid data pick =
     sendSubstreamMessage c \<lparr>sm_ID = sid, sm_Type = SubstreamMessageData, sm_Data = data\<rparr> pick"

definition removeStream :: "ConnState \<Rightarrow> bytes \<Rightarrow> nat option \<times> ConnState" where
  "removeStream c sid =
     (let key = substreamKey sid;
          stream = streams c key;
          c1 = c\<lparr>streams := (streams c)(key := None)\<rparr>;
          c2 = (case pendingOutbound c1 key of
                  Some waiting \<Rightarrow> c1\<lparr>pendingOutbound := (pendingOutbound c1)(key := None)\<rparr>
                | None \<Rightarrow> c1)
      in (stream, c2))"

definition closeLocalStream :: "ConnState \<Rightarrow> nat \<Rightarrow> bool \<Rightarrow> ConnState outcome" where
  "closeLocalStream c stream pick =
     (if stream = 0 then Returns c
      else if c_closed c then Returns c
      else
        (case sendControl c (ss_id (substreams c stream)) SubstreamMessageClose pick of
           Blocks (err, c1) \<Rightarrow> Blocks c1
         | Returns (err, c1) \<Rightarrow> Returns (snd (removeStream c1 (ss_id (substreams c1 stream))))))"

definition closeWithControl :: "ConnState \<Rightarrow> nat \<Rightarrow> bool \<Rightarrow> bool \<Rightarrow> ConnState outcome" where
  "closeWithControl c r sendCtl pick =
     (if localClosed (substreams c r) then Returns c
      else
        (let c1 = c\<lparr>substreams := (substreams c)(r := (substreams c r)\<lparr>localClosed := True\<rparr>)\<rparr> in
         case (if sendCtl then closeLocalStream c1 r pick else Returns c1) of
           Blocks c2 \<Rightarrow> Blocks c2
         | Returns c2 \<Rightarrow>
             (let s2 = (substreams c2 r)\<lparr>remoteClosed := True\<rparr>;
                  s3 = (if channelOnce s2 then s2
                        else s2\<lparr>channelOnce := True, inbound_closed := True\<rparr>)
              in Returns (c2\<lparr>substreams := (substreams c2)(r := s3)\<rparr>))))"

definition Substream_Close :: "ConnState \<Rightarrow> nat \<Rightarrow> bool \<Rightarrow> ConnState outcome" where
  "Substream_Close c r pick = closeWithControl c r True pick"

definition CloseRead :: "ConnState \<Rightarrow> nat \<Rightarrow> bool \<Rightarrow> ConnState outcome" where
  "CloseRead c r pick = closeWithControl c r False pick"

text \<open>
  \<^verbatim>\<open>Write(p)\<close>: \<open>p\<close> is the address of the caller's array. The result is the pair \<^verbatim>\<open>(n, err)\<close>.
\<close>

definition Write ::
  "ConnState \<Rightarrow> nat \<Rightarrow> nat \<Rightarrow> bool \<Rightarrow> ((nat \<times> stream_error option) \<times> ConnState) outcome" where
  "Write c r p pick =
     (let s = substreams c r in
      if localClosed s then Returns ((0, Some StreamClosed), c)
      else
        (let n = length (heap c p);
             buf = next_addr c;
             c1 = c\<lparr>heap := (heap c)(buf := make_bytes n), next_addr := buf + 1\<rparr>;
             c2 = c1\<lparr>heap := (heap c1)(buf := go_copy (heap c1 buf) 0 (heap c1 p))\<rparr>
         in case sendData c2 (ss_id s) buf pick of
              Blocks (err, c3) \<Rightarrow> Blocks ((0, err), c3)
            | Returns (Some err, c3) \<Rightarrow> Returns ((0, Some err), c3)
            | Returns (None, c3) \<Rightarrow> Returns ((n, None), c3)))"

text \<open>\<^verbatim>\<open>Conn.handleData\<close>: the dispatcher looks the substream up and pushes the payload.\<close>

definition handleData :: "ConnState \<Rightarrow> bytes \<Rightarrow> bytes \<Rightarrow> bool \<Rightarrow> ConnState outcome" where
  "handleData c sid data pick =
     (case streams c (substreamKey sid) of
        None \<Rightarrow> Returns c
      | Some stream \<Rightarrow>
          if stream = 0 then Returns c
          else
            (case pushData (substreams c stream) (c_closed c) pick data of
               Blocks s' \<Rightarrow> Blocks c
             | Returns s' \<Rightarrow> Returns (c\<lparr>substreams := (substreams c)(stream := s')\<rparr>)))"

section \<open>Auxiliary definitions of the proofs\<close>

text \<open>Well-formed queues: the nonce index is strictly sorted and indexes exactly the pending map.\<close>

definition wfq :: "'d MessageQueue \<Rightarrow> bool" where
  "wfq mq \<longleftrightarrow> sorted_wrt (<) (nonces mq) \<and> dom (pending mq) = set (nonces mq)
      \<and> (\<forall>n m. pending mq n = Some m \<longrightarrow> tm_Nonce m = n)"

definition buffered :: "'d MessageQueue \<Rightarrow> 'd TransportMessage list" where
  "buffered mq = map (\<lambda>n. the (pending mq n)) (nonces mq)"

definition qinv :: "'d MessageQueue \<Rightarrow> nat \<Rightarrow> bool" where
  "qinv mq k \<longleftrightarrow> wfq mq \<and> nextExpectedNonce mq = of_nat k \<and> 1 \<le> k \<and> k \<le> 2 ^ 64
      \<and> (\<forall>n\<in>set (nonces mq). k < unat n)"

definition frame :: "u64 \<Rightarrow> bytes TransportMessage" where
  "frame n = \<lparr>tm_Nonce = n,
      tm_Message = \<lparr>sm_ID = replicate 32 0, sm_Type = 3, sm_Data = [of_nat (unat n)]\<rparr>,
      tm_ID = replicate 32 0\<rparr>"

definition q_gap :: "bytes MessageQueue" where
  "q_gap = \<lparr>nextExpectedNonce = 1, pending = [2 \<mapsto> frame 2], nonces = [2]\<rparr>"

definition example_request :: "bytes Message" where
  "example_request =
     \<lparr>msg_Type = MessageTypeConnectionRequest,
      msg_Connection = Some \<lparr>cm_PeerID = [0x00, 0x01, 0x2A],
          cm_Recipient = Some \<lparr>ClientIdentity = replicate 32 1, ClientEncryptionKey = replicate 32 2,
                                Gateway = replicate 32 3\<rparr>,
          cm_ID = replicate 32 0x11\<rparr>,
      msg_Transport = None\<rparr>"

definition example_recipient :: Recipient where
  "example_recipient = \<lparr>ClientIdentity = replicate 32 1, ClientEncryptionKey = replicate 32 2,
                          Gateway = replicate 32 3\<rparr>"

definition key1 :: bytes where "key1 = replicate 32 0x11"

definition key2 :: bytes where "key2 = 0 # 0 # replicate 30 0xFE"

definition key3 :: bytes where "key3 = replicate 31 0 @ [0x07]"

definition disjoint_indices :: "Transport \<Rightarrow> bool" where
  "disjoint_indices t \<longleftrightarrow> dom (pendingDials t) \<inter> dom (connections t) = {}"

definition example_id :: bytes where "example_id = replicate 32 0x11"

definition example_request_cm :: ConnectionMessage where
  "example_request_cm = \<lparr>cm_PeerID = [0x00, 0x01, 0x2A], cm_Recipient = Some example_recipient,
                          cm_ID = example_id\<rparr>"

definition example_stream :: Substream where
  "example_stream = newSubstream example_id"

definition example_conn :: ConnState where
  "example_conn =
     \<lparr>ctx_done = False, mixnetOutbound = [], mixnetOutbound_cap = 32, c_closed = False, c_nonce = 0,
      c_id = example_id, c_remoteRecipient = example_recipient,
      streams = [substreamKey example_id \<mapsto> 1], pendingOutbound = Map.empty,
      substreams = (\<lambda>a. example_stream),
      heap = (\<lambda>a. if a = 1 then [0x68, 0x69] else []), next_addr = 2\<rparr>"

definition data_frame :: "ConnState \<Rightarrow> nat \<Rightarrow> nat \<Rightarrow> Recipient \<times> nat Message" where
  "data_frame c r buf =
     (c_remoteRecipient c,
      \<lparr>msg_Type = MessageTypeTransport, msg_Connection = None,
       msg_Transport = Some \<lparr>tm_Nonce = c_nonce c + 1,
          tm_Message = \<lparr>sm_ID = ss_id (substreams c r), sm_Type = SubstreamMessageData, sm_Data = buf\<rparr>,
          tm_ID = c_id c\<rparr>\<rparr>)"

definition close_frame :: "ConnState \<Rightarrow> nat \<Rightarrow> Recipient \<times> nat Message" where
  "close_frame c r =
     (c_remoteRecipient c,
      \<lparr>msg_Type = MessageTypeTransport, msg_Connection = None,
       msg_Transport = Some \<lparr>tm_Nonce = c_nonce c + 1,
          tm_Message = \<lparr>sm_ID = ss_id (substreams c r), sm_Type = SubstreamMessageClose, sm_Data = 0\<rparr>,
          tm_ID = c_id c\<rparr>\<rparr>)"

definition example_conn_closed_stream :: ConnState where
  "example_conn_closed_stream =
     example_conn\<lparr>substreams := (\<lambda>a. example_stream\<lparr>localClosed := True\<rparr>)\<rparr>"

text \<open>The substream object after a local close: both flags set, the inbound channel closed.\<close>

definition closed_locally :: "Substream \<Rightarrow> Substream" where
  "closed_locally s =
     (if channelOnce s then s\<lparr>localClosed := True, remoteClosed := True\<rparr>
      else s\<lparr>localClosed := True, remoteClosed := True, channelOnce := True, inbound_closed := True\<rparr>)"

definition example_conn_buffered :: ConnState where
  "example_conn_buffered =
     example_conn\<lparr>substreams := (\<lambda>a. example_stream\<lparr>inbound := [[1, 2, 3]]\<rparr>)\<rparr>"

text \<open>
  The connection after a local close that went through \<^verbatim>\<open>closeLocalStream\<close>: the nonce counter
  has advanced and the substream has left the index; \<open>close_sent\<close> has the Close frame on the
  outbound channel, \<open>close_unsent\<close> has not.
\<close>

definition close_unsent :: "ConnState \<Rightarrow> nat \<Rightarrow> ConnState" where
  "close_unsent c r =
     c\<lparr>substreams := (substreams c)(r := closed_locally (substreams c r)),
       c_nonce := c_nonce c + 1,
       streams := (streams c)(substreamKey (ss_id (substreams c r)) := None),
       pendingOutbound := (pendingOutbound c)(substreamKey (ss_id (substreams c r)) := None)\<rparr>"

definition close_sent :: "ConnState \<Rightarrow> nat \<Rightarrow> ConnState" where
  "close_sent c r = (close_unsent c r)\<lparr>mixnetOutbound := mixnetOutbound c @ [close_frame c r]\<rparr>"

definition example_conn_cancelled :: ConnState where
  "example_conn_cancelled = example_conn_buffered\<lparr>ctx_done := True\<rparr>"

definition example_conn_full :: ConnState where
  "example_conn_full = example_conn_buffered\<lparr>mixnetOutbound_cap := 0\<rparr>"

section \<open>Properties of the reordering queue\<close>

lemma Search_loop_spec:
  assumes "\<forall>a b. a \<le> b \<and> b < n \<and> f a \<longrightarrow> f b"
    and "i \<le> j" and "j \<le> n" and "\<forall>a<i. \<not> f a" and "\<forall>a. j \<le> a \<and> a < n \<longrightarrow> f a"
  shows "i \<le> Search_loop f i j \<and> Search_loop f i j \<le> j
         \<and> (\<forall>a<Search_loop f i j. \<not> f a) \<and> (\<forall>a. Search_loop f i j \<le> a \<and> a < n \<longrightarrow> f a)"
  using assms
proof (induction f i j rule: Search_loop.induct)
  case (1 f i j)
  show ?case
  proof (cases "i < j")
    case False
    have eq: "Search_loop f i j = i"
      using False by (subst Search_loop.simps) simp
    from False 1(4) have ij: "j = i" by simp
    show ?thesis unfolding eq using 1(5-) by (simp add: ij)
  next
    case True
    define h where "h = (i + j) div 2"
    have hb: "i \<le> h" "h < j" using True by (auto simp: h_def)
    show ?thesis
    proof (cases "f h")
      case False
      have below: "\<forall>a<h + 1. \<not> f a"
      proof (intro allI impI)
        fix a assume "a < h + 1"
        show "\<not> f a"
        proof
          assume "f a"
          with 1(3) \<open>a < h + 1\<close> hb 1(5) have "f h" by (metis less_Suc_eq_le Suc_eq_plus1 less_le_trans)
          with False show False by simp
        qed
      qed
      have IH: "h + 1 \<le> Search_loop f (h + 1) j \<and> Search_loop f (h + 1) j \<le> j
         \<and> (\<forall>a<Search_loop f (h + 1) j. \<not> f a) \<and> (\<forall>a. Search_loop f (h + 1) j \<le> a \<and> a < n \<longrightarrow> f a)"
        using 1(1)[OF True h_def False 1(3)] hb 1(5) below 1(7) by simp
      have eq: "Search_loop f i j = Search_loop f (h + 1) j"
        using True False by (subst Search_loop.simps) (simp add: h_def Let_def)
      show ?thesis using IH hb by (simp add: eq)
    next
      case fh: True
      have above: "\<forall>a. h \<le> a \<and> a < n \<longrightarrow> f a"
        using 1(3) fh by blast
      have IH: "i \<le> Search_loop f i h \<and> Search_loop f i h \<le> h
         \<and> (\<forall>a<Search_loop f i h. \<not> f a) \<and> (\<forall>a. Search_loop f i h \<le> a \<and> a < n \<longrightarrow> f a)"
        using 1(2)[OF True h_def _ 1(3)] fh hb 1(5) 1(6) above by simp
      have eq: "Search_loop f i j = Search_loop f i h"
        using True fh by (subst Search_loop.simps) (simp add: h_def Let_def)
      show ?thesis using IH hb by (simp add: eq)
    qed
  qed
qed

lemma Search_sorted:
  fixes ns :: "u64 list" and x :: u64
  assumes "sorted_wrt (<) ns"
  shows "Search (length ns) (\<lambda>i. ns ! i \<ge> x) \<le> length ns
    \<and> (\<forall>a<Search (length ns) (\<lambda>i. ns ! i \<ge> x). ns ! a < x)
    \<and> (\<forall>a. Search (length ns) (\<lambda>i. ns ! i \<ge> x) \<le> a \<and> a < length ns \<longrightarrow> x \<le> ns ! a)"
proof -
  have mono: "\<forall>a b. a \<le> b \<and> b < length ns \<and> x \<le> ns ! a \<longrightarrow> x \<le> ns ! b"
  proof (intro allI impI)
    fix a b assume h: "a \<le> b \<and> b < length ns \<and> x \<le> ns ! a"
    show "x \<le> ns ! b"
    proof (cases "a = b")
      case True with h show ?thesis by simp
    next
      case False
      with h have "a < b" by simp
      with assms(1) h have "ns ! a < ns ! b" by (simp add: sorted_wrt_iff_nth_less)
      with h show ?thesis by (metis order.trans less_imp_le)
    qed
  qed
  have "0 \<le> Search_loop (\<lambda>i. ns ! i \<ge> x) 0 (length ns) \<and> Search_loop (\<lambda>i. ns ! i \<ge> x) 0 (length ns) \<le> length ns
         \<and> (\<forall>a<Search_loop (\<lambda>i. ns ! i \<ge> x) 0 (length ns). \<not> (ns ! a \<ge> x))
         \<and> (\<forall>a. Search_loop (\<lambda>i. ns ! i \<ge> x) 0 (length ns) \<le> a \<and> a < length ns \<longrightarrow> ns ! a \<ge> x)"
    by (rule Search_loop_spec[OF mono]) auto
  then show ?thesis
    unfolding Search_def by (simp add: not_le)
qed

lemma go_copy_shift:
  assumes "idx < length ns"
  shows "(go_copy (ns @ [z]) (idx + 1) (drop idx (ns @ [z])))[idx := x] = take idx ns @ [x] @ drop idx ns"
proof -
  have a: "take (idx + 1) (ns @ [z]) = take idx ns @ [ns ! idx]"
    using assms by (simp add: take_Suc_conv_app_nth)
  have b: "take (length (ns @ [z]) - (idx + 1)) (drop idx (ns @ [z])) = drop idx ns"
    using assms by simp
  have c: "drop (idx + 1 + length (drop idx (ns @ [z]))) (ns @ [z]) = []"
    using assms by simp
  have "go_copy (ns @ [z]) (idx + 1) (drop idx (ns @ [z])) = take idx ns @ [ns ! idx] @ drop idx ns"
    unfolding go_copy_def a b c by simp
  moreover have "length (take idx ns) = idx" using assms by simp
  ultimately show ?thesis by (simp add: list_update_append)
qed

lemma insertLocked_shape:
  fixes mq :: "'d MessageQueue"
  assumes "sorted_wrt (<) (nonces mq)" and "tm_Nonce msg \<notin> set (nonces mq)"
  shows "\<exists>idx. idx \<le> length (nonces mq)
     \<and> insertLocked mq msg = mq\<lparr>pending := (pending mq)(tm_Nonce msg \<mapsto> msg),
                                nonces := take idx (nonces mq) @ [tm_Nonce msg] @ drop idx (nonces mq)\<rparr>
     \<and> (\<forall>a\<in>set (take idx (nonces mq)). a < tm_Nonce msg)
     \<and> (\<forall>a\<in>set (drop idx (nonces mq)). tm_Nonce msg < a)"
proof -
  define ns where "ns = nonces mq"
  define x where "x = tm_Nonce msg"
  define idx where "idx = Search (length ns) (\<lambda>i. ns ! i \<ge> x)"
  have S: "idx \<le> length ns" "\<forall>a<idx. ns ! a < x" "\<forall>a. idx \<le> a \<and> a < length ns \<longrightarrow> x \<le> ns ! a"
    using Search_sorted[of ns x] assms(1) by (simp_all add: idx_def ns_def)
  have notin: "x \<notin> set ns" using assms(2) by (simp add: x_def ns_def)
  have lo: "\<forall>a\<in>set (take idx ns). a < x"
  proof
    fix a assume "a \<in> set (take idx ns)"
    then obtain i where "i < length (take idx ns)" "take idx ns ! i = a"
      by (auto simp: in_set_conv_nth)
    with S show "a < x" by auto
  qed
  have hi: "\<forall>a\<in>set (drop idx ns). x < a"
  proof
    fix a assume a: "a \<in> set (drop idx ns)"
    then obtain i where "i < length (drop idx ns)" "drop idx ns ! i = a"
      by (auto simp: in_set_conv_nth)
    with S have "x \<le> a" by auto
    moreover have "a \<in> set ns" using a by (meson in_set_dropD)
    ultimately show "x < a" using notin by (metis order_le_less)
  qed
  have eq: "insertLocked mq msg = mq\<lparr>pending := (pending mq)(x \<mapsto> msg),
                                nonces := take idx ns @ [x] @ drop idx ns\<rparr>"
  proof (cases "idx = length ns")
    case True
    then show ?thesis
      unfolding insertLocked_def Let_def by (simp add: ns_def x_def idx_def)
  next
    case False
    with S have lt: "idx < length ns" by simp
    then have "ns ! idx \<in> set ns" by simp
    with notin have ne: "ns ! idx \<noteq> x" by auto
    have "insertLocked mq msg = mq\<lparr>pending := (pending mq)(x \<mapsto> msg),
                 nonces := (go_copy (ns @ [0]) (idx + 1) (drop idx (ns @ [0])))[idx := x]\<rparr>"
      using False ne unfolding insertLocked_def Let_def
      by (simp add: ns_def x_def idx_def)
    then show ?thesis by (simp only: go_copy_shift[OF lt])
  qed
  show ?thesis
    using S(1) eq lo hi unfolding ns_def x_def by blast
qed

lemma insertLocked_wfq:
  fixes mq :: "'d MessageQueue"
  assumes "wfq mq" and "tm_Nonce msg \<notin> set (nonces mq)"
  shows "wfq (insertLocked mq msg)"
    and "mset (buffered (insertLocked mq msg)) = mset (buffered mq) + {#msg#}"
    and "set (nonces (insertLocked mq msg)) = insert (tm_Nonce msg) (set (nonces mq))"
    and "nextExpectedNonce (insertLocked mq msg) = nextExpectedNonce mq"
proof -
  from assms have srt: "sorted_wrt (<) (nonces mq)" by (simp add: wfq_def)
  from insertLocked_shape[OF srt assms(2)] obtain idx where
    idx: "idx \<le> length (nonces mq)"
    and eq: "insertLocked mq msg = mq\<lparr>pending := (pending mq)(tm_Nonce msg \<mapsto> msg),
                                nonces := take idx (nonces mq) @ [tm_Nonce msg] @ drop idx (nonces mq)\<rparr>"
    and lo: "\<forall>a\<in>set (take idx (nonces mq)). a < tm_Nonce msg"
    and hi: "\<forall>a\<in>set (drop idx (nonces mq)). tm_Nonce msg < a"
    by blast
  define ns where "ns = nonces mq"
  define x where "x = tm_Nonce msg"
  have split: "ns = take idx ns @ drop idx ns" by simp
  have s1: "sorted_wrt (<) (take idx ns)" and s2: "sorted_wrt (<) (drop idx ns)"
    using srt by (simp_all add: ns_def sorted_wrt_take sorted_wrt_drop)
  have cross: "\<forall>a\<in>set (take idx ns). \<forall>b\<in>set (drop idx ns). a < b"
    using lo hi unfolding ns_def by (metis order.strict_trans)
  have sorted': "sorted_wrt (<) (take idx ns @ [x] @ drop idx ns)"
    using s1 s2 lo hi cross unfolding ns_def x_def by (simp add: sorted_wrt_append)
  have setn: "set (take idx ns @ [x] @ drop idx ns) = insert x (set ns)"
  proof -
    have "set ns = set (take idx ns) \<union> set (drop idx ns)"
      by (metis set_append split)
    then show ?thesis by auto
  qed
  show "wfq (insertLocked mq msg)"
    using assms(1) sorted' setn unfolding eq wfq_def ns_def x_def
    by (auto split: if_splits)
  show "set (nonces (insertLocked mq msg)) = insert (tm_Nonce msg) (set (nonces mq))"
    using setn unfolding eq ns_def x_def by simp
  show "nextExpectedNonce (insertLocked mq msg) = nextExpectedNonce mq"
    unfolding eq by simp
  have xt: "x \<notin> set (take idx ns)" and xd: "x \<notin> set (drop idx ns)"
    using assms(2) unfolding ns_def x_def by (auto dest: in_set_takeD in_set_dropD)
  have m1: "map (\<lambda>n. the (((pending mq)(x \<mapsto> msg)) n)) (take idx ns) = map (\<lambda>n. the (pending mq n)) (take idx ns)"
    using xt by (intro map_cong) auto
  have m2: "map (\<lambda>n. the (((pending mq)(x \<mapsto> msg)) n)) (drop idx ns) = map (\<lambda>n. the (pending mq n)) (drop idx ns)"
    using xd by (intro map_cong) auto
  have "buffered (insertLocked mq msg)
      = map (\<lambda>n. the (pending mq n)) (take idx ns) @ [msg] @ map (\<lambda>n. the (pending mq n)) (drop idx ns)"
    unfolding eq buffered_def using m1 m2 by (simp add: ns_def x_def)
  moreover have "buffered mq = map (\<lambda>n. the (pending mq n)) (take idx ns) @ map (\<lambda>n. the (pending mq n)) (drop idx ns)"
    unfolding buffered_def ns_def by (metis append_take_drop_id map_append)
  ultimately show "mset (buffered (insertLocked mq msg)) = mset (buffered mq) + {#msg#}"
    by simp
qed

lemma u64_of_nat_unat: "k < 2 ^ 64 \<Longrightarrow> unat (of_nat k :: u64) = k"
  by (simp add: unat_of_nat)

lemma u64_unat_bound: "unat (a :: u64) < 2 ^ 64"
  using unsigned_less[of a, where ?'a = nat] by simp

lemma u64_unat_of_nat_inv: "of_nat (unat (a :: u64)) = a"
  by (simp add: of_nat_unat)

lemma u64_of_nat_top: "(of_nat (2 ^ 64) :: u64) = 0"
  by simp

lemma pop_all_stop:
  "\<not> snd (fst (Pop nil mq)) \<or> fst (fst (Pop nil mq)) = None \<Longrightarrow> pop_all nil mq = ([], mq)"
  by (subst pop_all.simps) (simp add: Let_def)

lemma pop_all_go:
  "Pop nil mq = ((Some m, True), mq') \<Longrightarrow>
     pop_all nil mq = (m # fst (pop_all nil mq'), snd (pop_all nil mq'))"
  by (subst pop_all.simps) (simp add: Let_def)

lemma pop_all_spec:
  fixes mq :: "'d MessageQueue"
  assumes "wfq mq" and "nextExpectedNonce mq = of_nat k" and "1 \<le> k" and "k \<le> 2 ^ 64"
    and "\<forall>n\<in>set (nonces mq). k \<le> unat n"
  shows "\<exists>k'. k \<le> k' \<and> k' \<le> 2 ^ 64 \<and> wfq (snd (pop_all nil mq))
     \<and> nextExpectedNonce (snd (pop_all nil mq)) = of_nat k'
     \<and> (\<forall>n\<in>set (nonces (snd (pop_all nil mq))). k' < unat n)
     \<and> map (unat \<circ> tm_Nonce) (fst (pop_all nil mq)) = [k..<k']
     \<and> fst (pop_all nil mq) @ buffered (snd (pop_all nil mq)) = buffered mq"
  using assms
proof (induction "nonces mq" arbitrary: mq k)
  case Nil
  then have "pop_all nil mq = ([], mq)"
    by (intro pop_all_stop) (simp add: Pop_def)
  with Nil show ?case by (intro exI[of _ k]) simp
next
  case (Cons a ns)
  have nm: "nonces mq = a # ns" using Cons(2) by simp
  have ka: "k \<le> unat a" using Cons(7) nm by simp
  have "unat a < 2 ^ 64" by (rule u64_unat_bound)
  with ka have klt: "k < 2 ^ 64" by simp
  have uk: "unat (of_nat k :: u64) = k" using klt by (rule u64_of_nat_unat)
  have nz: "nextExpectedNonce mq \<noteq> 0"
  proof
    assume "nextExpectedNonce mq = 0"
    then have "unat (of_nat k :: u64) = 0" using Cons(4) by simp
    with uk Cons(5) show False by simp
  qed
  have srt: "sorted_wrt (<) (a # ns)" using Cons(3) nm by (simp add: wfq_def)
  show ?case
  proof (cases "a = of_nat k")
    case False
    have "pop_all nil mq = ([], mq)"
      using False nz nm Cons(4) by (intro pop_all_stop) (simp add: Pop_def Let_def)
    moreover have "\<forall>n\<in>set (nonces mq). k < unat n"
    proof
      fix n assume "n \<in> set (nonces mq)"
      then have "n = a \<or> n \<in> set ns" using nm by simp
      moreover have "unat a \<noteq> k" using False u64_unat_of_nat_inv[of a] by auto
      then have "k < unat a" using ka by simp
      moreover have "\<forall>b\<in>set ns. unat a < unat b" using srt by (simp add: word_less_nat_alt)
      ultimately show "k < unat n" by (metis less_trans)
    qed
    ultimately show ?thesis using Cons(3,4,6) by (intro exI[of _ k]) simp
  next
    case True
    define msg where "msg = (case pending mq a of Some m \<Rightarrow> m | None \<Rightarrow> zeroTransportMessage nil)"
    define mq' where "mq' = mq\<lparr>pending := (pending mq)(a := None), nonces := drop 1 (nonces mq),
                   nextExpectedNonce := nextExpectedNonce mq + 1\<rparr>"
    have P: "Pop nil mq = ((Some msg, True), mq')"
      using True nz nm Cons(4) by (simp add: Pop_def Let_def msg_def mq'_def)
    have ain: "a \<in> dom (pending mq)" using Cons(3) nm by (simp add: wfq_def)
    then obtain m0 where m0: "pending mq a = Some m0" by blast
    then have msg_eq: "msg = m0" by (simp add: msg_def)
    have msg_nonce: "tm_Nonce msg = a" using Cons(3) m0 msg_eq by (simp add: wfq_def)
    have ans: "a \<notin> set ns" using srt by auto
    have n': "nonces mq' = ns" by (simp add: mq'_def nm)
    have wf': "wfq mq'"
      using Cons(3) ans srt unfolding wfq_def mq'_def nm
      by (auto split: if_splits)
    have ne': "nextExpectedNonce mq' = of_nat (Suc k)"
      using Cons(4) by (simp add: mq'_def)
    have ge': "\<forall>n\<in>set (nonces mq'). Suc k \<le> unat n"
    proof
      fix n assume "n \<in> set (nonces mq')"
      then have "a < n" using srt n' by simp
      then have "unat a < unat n" by (simp add: word_less_nat_alt)
      moreover have "unat a = k" using True uk by simp
      ultimately show "Suc k \<le> unat n" by simp
    qed
    from Cons(1)[of mq' "Suc k", OF n'[symmetric] wf' ne' _ _ ge'] klt
    obtain k' where k': "Suc k \<le> k'" "k' \<le> 2 ^ 64" "wfq (snd (pop_all nil mq'))"
      "nextExpectedNonce (snd (pop_all nil mq')) = of_nat k'"
      "\<forall>n\<in>set (nonces (snd (pop_all nil mq'))). k' < unat n"
      "map (unat \<circ> tm_Nonce) (fst (pop_all nil mq')) = [Suc k..<k']"
      "fst (pop_all nil mq') @ buffered (snd (pop_all nil mq')) = buffered mq'"
      by auto
    have pa: "pop_all nil mq = (msg # fst (pop_all nil mq'), snd (pop_all nil mq'))"
      using P by (rule pop_all_go)
    have bm: "buffered mq = msg # buffered mq'"
    proof -
      have "map (\<lambda>n. the (((pending mq)(a := None)) n)) ns = map (\<lambda>n. the (pending mq n)) ns"
        using ans by (intro map_cong) auto
      then show ?thesis
        unfolding buffered_def by (simp add: nm mq'_def m0 msg_eq)
    qed
    have nn: "map (unat \<circ> tm_Nonce) (msg # fst (pop_all nil mq')) = [k..<k']"
      using k'(1,6) msg_nonce True uk by (simp add: upt_conv_Cons)
    show ?thesis
      apply (rule exI[of _ k'])
      unfolding pa using k' bm nn by simp
  qed
qed

lemma buffered_nonces: "wfq mq \<Longrightarrow> map tm_Nonce (buffered mq) = nonces mq"
proof -
  assume w: "wfq mq"
  have "\<forall>n\<in>set (nonces mq). tm_Nonce (the (pending mq n)) = n"
  proof
    fix n assume "n \<in> set (nonces mq)"
    with w have "n \<in> dom (pending mq)" by (simp add: wfq_def)
    then obtain m where "pending mq n = Some m" by blast
    with w show "tm_Nonce (the (pending mq n)) = n" by (simp add: wfq_def)
  qed
  then show ?thesis unfolding buffered_def by (simp add: map_idI)
qed

lemma push_and_drain_spec:
  fixes mq :: "'d MessageQueue"
  assumes "qinv mq k" and "k \<le> unat (tm_Nonce msg)" and "tm_Nonce msg \<notin> set (nonces mq)"
  shows "\<exists>k'. qinv (snd (push_and_drain nil mq msg)) k' \<and> k \<le> k'
     \<and> map (unat \<circ> tm_Nonce) (fst (push_and_drain nil mq msg)) = [k..<k']
     \<and> mset (fst (push_and_drain nil mq msg)) + mset (buffered (snd (push_and_drain nil mq msg)))
         = mset (buffered mq) + {#msg#}"
proof -
  define n where "n = tm_Nonce msg"
  have w: "wfq mq" and ne: "nextExpectedNonce mq = of_nat k" and k1: "1 \<le> k"
    and gt: "\<forall>a\<in>set (nonces mq). k < unat a"
    using assms(1) by (simp_all add: qinv_def)
  have "unat n < 2 ^ 64" by (rule u64_unat_bound)
  with assms(2) have klt: "k < 2 ^ 64" by (simp add: n_def)
  have uk: "unat (of_nat k :: u64) = k" using klt by (rule u64_of_nat_unat)
  have nz: "nextExpectedNonce mq \<noteq> 0"
  proof
    assume "nextExpectedNonce mq = 0"
    then have "unat (of_nat k :: u64) = 0" using ne by simp
    with uk k1 show False by simp
  qed
  show ?thesis
  proof (cases "n = of_nat k")
    case True
    define mq1 where "mq1 = mq\<lparr>nextExpectedNonce := nextExpectedNonce mq + 1\<rparr>"
    have T: "TryPush mq msg = ((Some msg, True), mq1)"
      using True nz ne by (simp add: TryPush_def Let_def n_def mq1_def)
    have w1: "wfq mq1" using w by (simp add: wfq_def mq1_def)
    have ne1: "nextExpectedNonce mq1 = of_nat (Suc k)" using ne by (simp add: mq1_def)
    have ge1: "\<forall>a\<in>set (nonces mq1). Suc k \<le> unat a" using gt by (auto simp: mq1_def)
    have b1: "buffered mq1 = buffered mq" by (simp add: buffered_def mq1_def)
    from pop_all_spec[of mq1 "Suc k" nil, OF w1 ne1 _ _ ge1] klt
    obtain k' where k': "Suc k \<le> k'" "k' \<le> 2 ^ 64" "wfq (snd (pop_all nil mq1))"
      "nextExpectedNonce (snd (pop_all nil mq1)) = of_nat k'"
      "\<forall>a\<in>set (nonces (snd (pop_all nil mq1))). k' < unat a"
      "map (unat \<circ> tm_Nonce) (fst (pop_all nil mq1)) = [Suc k..<k']"
      "fst (pop_all nil mq1) @ buffered (snd (pop_all nil mq1)) = buffered mq1"
      by auto
    have pd: "push_and_drain nil mq msg = (msg # fst (pop_all nil mq1), snd (pop_all nil mq1))"
      by (simp add: push_and_drain_def T released_def Let_def)
    have nn: "map (unat \<circ> tm_Nonce) (msg # fst (pop_all nil mq1)) = [k..<k']"
      using k'(1,6) True uk by (simp add: upt_conv_Cons n_def)
    have "mset (fst (pop_all nil mq1)) + mset (buffered (snd (pop_all nil mq1))) = mset (buffered mq)"
      using k'(7) b1 by (metis mset_append)
    then have cons: "mset (msg # fst (pop_all nil mq1)) + mset (buffered (snd (pop_all nil mq1)))
        = mset (buffered mq) + {#msg#}" by simp
    have "qinv (snd (pop_all nil mq1)) k'"
      using k' k1 by (simp add: qinv_def)
    then show ?thesis
      unfolding pd using k'(1) nn cons by (intro exI[of _ k']) simp
  next
    case False
    have "unat n \<noteq> k" using False u64_unat_of_nat_inv[of n] by auto
    with assms(2) have kn: "k < unat n" by (simp add: n_def)
    then have nlt: "\<not> n < of_nat k" by (simp add: word_less_nat_alt uk)
    have "n \<notin> dom (pending mq)" using assms(3) w by (simp add: wfq_def n_def)
    then have pn: "pending mq n = None" by blast
    define mq1 where "mq1 = insertLocked mq msg"
    have T: "TryPush mq msg = ((None, False), mq1)"
      using False nz ne nlt pn by (simp add: TryPush_def Let_def n_def mq1_def)
    note ins = insertLocked_wfq[OF w assms(3), folded mq1_def]
    have ne1: "nextExpectedNonce mq1 = of_nat k" using ins(4) ne by simp
    have ge1: "\<forall>a\<in>set (nonces mq1). k \<le> unat a"
      using gt kn ins(3) by (auto simp: n_def)
    from pop_all_spec[of mq1 k nil, OF ins(1) ne1 k1 _ ge1] klt
    obtain k' where k': "k \<le> k'" "k' \<le> 2 ^ 64" "wfq (snd (pop_all nil mq1))"
      "nextExpectedNonce (snd (pop_all nil mq1)) = of_nat k'"
      "\<forall>a\<in>set (nonces (snd (pop_all nil mq1))). k' < unat a"
      "map (unat \<circ> tm_Nonce) (fst (pop_all nil mq1)) = [k..<k']"
      "fst (pop_all nil mq1) @ buffered (snd (pop_all nil mq1)) = buffered mq1"
      by auto
    have pd: "push_and_drain nil mq msg = (fst (pop_all nil mq1), snd (pop_all nil mq1))"
      by (simp add: push_and_drain_def T released_def Let_def)
    have "mset (fst (pop_all nil mq1)) + mset (buffered (snd (pop_all nil mq1))) = mset (buffered mq1)"
      using k'(7) by (metis mset_append)
    then have cons: "mset (fst (pop_all nil mq1)) + mset (buffered (snd (pop_all nil mq1)))
        = mset (buffered mq) + {#msg#}" using ins(2) by simp
    have "qinv (snd (pop_all nil mq1)) k'"
      using k' k1 by (simp add: qinv_def)
    then show ?thesis
      unfolding pd using k'(1,6) cons by (intro exI[of _ k']) simp
  qed
qed

lemma u64_unat_inj: "unat (a :: u64) = unat b \<Longrightarrow> a = b"
  by (metis u64_unat_of_nat_inv)

lemma upt_split: "k \<le> k1 \<Longrightarrow> k1 \<le> k' \<Longrightarrow> [k..<k1] @ [k1..<k'] = [k..<k']"
  using upt_add_eq_append[of k k1 "k' - k1"] by simp

lemma feed_all_spec:
  fixes mq :: "'d MessageQueue"
  assumes "qinv mq k" and "distinct (map tm_Nonce fs)"
    and "\<forall>f\<in>set fs. k \<le> unat (tm_Nonce f) \<and> tm_Nonce f \<notin> set (nonces mq)"
  shows "\<exists>k'. qinv (snd (feed_all nil mq fs)) k' \<and> k \<le> k'
     \<and> map (unat \<circ> tm_Nonce) (fst (feed_all nil mq fs)) = [k..<k']
     \<and> mset (fst (feed_all nil mq fs)) + mset (buffered (snd (feed_all nil mq fs)))
         = mset (buffered mq) + mset fs"
  using assms
proof (induction fs arbitrary: mq k)
  case Nil
  then show ?case by (intro exI[of _ k]) simp
next
  case (Cons f fs)
  define out1 where "out1 = fst (push_and_drain nil mq f)"
  define mq1 where "mq1 = snd (push_and_drain nil mq f)"
  have fk: "k \<le> unat (tm_Nonce f)" and fn: "tm_Nonce f \<notin> set (nonces mq)"
    using Cons(4) by simp_all
  from push_and_drain_spec[OF Cons(2) fk fn, of nil]
  obtain k1 where k1: "qinv mq1 k1" "k \<le> k1" "map (unat \<circ> tm_Nonce) out1 = [k..<k1]"
    "mset out1 + mset (buffered mq1) = mset (buffered mq) + {#f#}"
    unfolding out1_def mq1_def by blast
  have w: "wfq mq" using Cons(2) by (simp add: qinv_def)
  have w1: "wfq mq1" using k1(1) by (simp add: qinv_def)
  have "image_mset tm_Nonce (mset out1 + mset (buffered mq1))
      = image_mset tm_Nonce (mset (buffered mq) + {#f#})"
    using k1(4) by simp
  then have nm: "mset (map tm_Nonce out1) + mset (nonces mq1) = mset (nonces mq) + {#tm_Nonce f#}"
    using buffered_nonces[OF w] buffered_nonces[OF w1]
    by (metis image_mset_union mset_map image_mset_single)
  then have "set_mset (mset (map tm_Nonce out1) + mset (nonces mq1))
      = set_mset (mset (nonces mq) + {#tm_Nonce f#})" by simp
  then have sets: "set (map tm_Nonce out1) \<union> set (nonces mq1) = insert (tm_Nonce f) (set (nonces mq))"
    by simp
  have dfs: "distinct (map tm_Nonce fs)" and fnot: "tm_Nonce f \<notin> set (map tm_Nonce fs)"
    using Cons(3) by simp_all
  have pre: "\<forall>g\<in>set fs. k1 \<le> unat (tm_Nonce g) \<and> tm_Nonce g \<notin> set (nonces mq1)"
  proof
    fix g assume g: "g \<in> set fs"
    then have gk: "k \<le> unat (tm_Nonce g)" and gn: "tm_Nonce g \<notin> set (nonces mq)"
      using Cons(4) by simp_all
    have gf: "tm_Nonce g \<noteq> tm_Nonce f" using g fnot by (metis image_eqI set_map)
    have gnot: "tm_Nonce g \<notin> set (map tm_Nonce out1) \<union> set (nonces mq1)"
      using sets gn gf by simp
    have "k1 \<le> unat (tm_Nonce g)"
    proof (rule ccontr)
      assume "\<not> k1 \<le> unat (tm_Nonce g)"
      with gk have "unat (tm_Nonce g) \<in> set [k..<k1]" by simp
      then have "unat (tm_Nonce g) \<in> set (map (unat \<circ> tm_Nonce) out1)" using k1(3) by simp
      then obtain o1 where "o1 \<in> set out1" "unat (tm_Nonce o1) = unat (tm_Nonce g)" by auto
      then have "o1 \<in> set out1" "tm_Nonce o1 = tm_Nonce g" using u64_unat_inj by blast+
      then have "tm_Nonce g \<in> set (map tm_Nonce out1)" by (metis image_eqI set_map)
      with gnot show False by simp
    qed
    with gnot show "k1 \<le> unat (tm_Nonce g) \<and> tm_Nonce g \<notin> set (nonces mq1)" by simp
  qed
  from Cons(1)[OF k1(1) dfs pre]
  obtain k' where k': "qinv (snd (feed_all nil mq1 fs)) k'" "k1 \<le> k'"
    "map (unat \<circ> tm_Nonce) (fst (feed_all nil mq1 fs)) = [k1..<k']"
    "mset (fst (feed_all nil mq1 fs)) + mset (buffered (snd (feed_all nil mq1 fs)))
         = mset (buffered mq1) + mset fs" by blast
  have fa: "feed_all nil mq (f # fs) = (out1 @ fst (feed_all nil mq1 fs), snd (feed_all nil mq1 fs))"
    by (simp add: Let_def out1_def mq1_def)
  have nn: "map (unat \<circ> tm_Nonce) (out1 @ fst (feed_all nil mq1 fs)) = [k..<k']"
    using k1(3) k'(3) upt_split[OF k1(2) k'(2)] by simp
  have "mset (out1 @ fst (feed_all nil mq1 fs)) + mset (buffered (snd (feed_all nil mq1 fs)))
      = mset out1 + (mset (buffered mq1) + mset fs)"
    using k'(4) by (simp add: add.assoc)
  also have "\<dots> = mset (buffered mq) + mset (f # fs)"
    using k1(4) by (simp add: add.assoc[symmetric])
  finally have cons: "mset (out1 @ fst (feed_all nil mq1 fs)) + mset (buffered (snd (feed_all nil mq1 fs)))
      = mset (buffered mq) + mset (f # fs)" .
  show ?case
    unfolding fa fst_conv snd_conv
    using k'(1) le_trans[OF k1(2) k'(2)] nn cons by blast
qed

lemma complete_run:
  fixes ns :: "u64 list"
  assumes "1 \<le> k'" and "\<forall>n\<in>set ns. k' < unat n"
    and "mset [1..<k'] + mset (map unat ns) = mset [1..<Suc N]"
  shows "k' = Suc N \<and> ns = []"
proof -
  have sets: "set [1..<k'] \<union> unat ` set ns = set [1..<Suc N]"
    using assms(3) by (metis set_mset_mset set_mset_union set_map)
  have a: "\<not> k' \<le> N"
  proof
    assume "k' \<le> N"
    with assms(1) have "k' \<in> set [1..<Suc N]" by auto
    with sets have "k' \<in> set [1..<k'] \<union> unat ` set ns" by simp
    with assms(2) show False by auto
  qed
  have b: "\<not> Suc N < k'"
  proof
    assume "Suc N < k'"
    then have "Suc N \<in> set [1..<k']" by simp
    with sets have "Suc N \<in> set [1..<Suc N]" by blast
    then show False by simp
  qed
  from a b have k: "k' = Suc N" by simp
  with assms(3) have "mset (map unat ns) = {#}" by simp
  then show ?thesis using k by simp
qed

text \<open>
  Claim C1 (reorder totality). Let the nonces of the frames \<open>fs\<close> be a permutation of
  \<open>1, \<dots>, N\<close>. A freshly created queue can be armed, and when the frames are pushed one at a
  time, each push followed by popping until nothing is yielded, the released frames carry the
  nonces \<open>1, 2, \<dots>, N\<close> in this order; they are exactly the pushed frames, each once.
\<close>

theorem reorder_totality:
  fixes fs :: "'d TransportMessage list"
  assumes "mset (map (unat \<circ> tm_Nonce) fs) = mset [1..<Suc N]"
  shows "\<exists>q0. SetConnectionMessageReceived New = Some q0
     \<and> map (unat \<circ> tm_Nonce) (fst (feed_all nil q0 fs)) = [1..<Suc N]
     \<and> mset (fst (feed_all nil q0 fs)) = mset fs"
proof -
  define q0 :: "'d MessageQueue" where "q0 = New\<lparr>nextExpectedNonce := 1\<rparr>"
  have arm: "SetConnectionMessageReceived New = Some q0"
    by (simp add: SetConnectionMessageReceived_def New_def q0_def)
  have inv0: "qinv q0 1"
    by (simp add: qinv_def wfq_def q0_def New_def)
  have b0: "buffered q0 = []" by (simp add: buffered_def q0_def New_def)
  have "distinct (map (unat \<circ> tm_Nonce) fs)"
    using assms by (metis distinct_upt mset_eq_imp_distinct_iff)
  then have d: "distinct (map tm_Nonce fs)"
    by (metis distinct_map list.map_comp)
  have "set (map (unat \<circ> tm_Nonce) fs) = set [1..<Suc N]"
    using assms by (metis set_mset_mset)
  then have ge: "\<forall>f\<in>set fs. 1 \<le> unat (tm_Nonce f) \<and> tm_Nonce f \<notin> set (nonces q0)"
    by (auto simp: q0_def New_def)
  from feed_all_spec[OF inv0 d ge, of nil]
  obtain k' where k': "qinv (snd (feed_all nil q0 fs)) k'" "1 \<le> k'"
    "map (unat \<circ> tm_Nonce) (fst (feed_all nil q0 fs)) = [1..<k']"
    "mset (fst (feed_all nil q0 fs)) + mset (buffered (snd (feed_all nil q0 fs))) = mset fs"
    using b0 by auto
  define qf where "qf = snd (feed_all nil q0 fs)"
  have wf: "wfq qf" and gt: "\<forall>n\<in>set (nonces qf). k' < unat n"
    using k'(1) by (simp_all add: qinv_def qf_def)
  have "image_mset (unat \<circ> tm_Nonce) (mset (fst (feed_all nil q0 fs)) + mset (buffered qf))
      = image_mset (unat \<circ> tm_Nonce) (mset fs)"
    using k'(4) by (simp add: qf_def)
  then have "mset (map (unat \<circ> tm_Nonce) (fst (feed_all nil q0 fs))) + mset (map unat (map tm_Nonce (buffered qf)))
      = mset (map (unat \<circ> tm_Nonce) fs)"
    by simp
  then have "mset [1..<k'] + mset (map unat (nonces qf)) = mset [1..<Suc N]"
    using k'(3) buffered_nonces[OF wf] assms by simp
  from complete_run[OF k'(2) gt this] have kN: "k' = Suc N" and e: "nonces qf = []" by simp_all
  have "buffered qf = []" using e by (simp add: buffered_def)
  then have "mset (fst (feed_all nil q0 fs)) = mset fs" using k'(4) by (simp add: qf_def)
  with arm k'(3) kN show ?thesis by blast
qed

theorem reorder_totality_witness:
  "mset (map (unat \<circ> tm_Nonce) [frame 3, frame 5, frame 1, frame 4, frame 2]) = mset [1..<Suc 5]
   \<and> (\<exists>q0. SetConnectionMessageReceived New = Some q0
     \<and> map (unat \<circ> tm_Nonce) (fst (feed_all [] q0 [frame 3, frame 5, frame 1, frame 4, frame 2])) = [1..<Suc 5]
     \<and> mset (fst (feed_all [] q0 [frame 3, frame 5, frame 1, frame 4, frame 2]))
         = mset [frame 3, frame 5, frame 1, frame 4, frame 2])"
proof -
  have h: "mset (map (unat \<circ> tm_Nonce) [frame 3, frame 5, frame 1, frame 4, frame 2]) = mset [1..<Suc 5]"
    by code_simp
  show ?thesis using h reorder_totality[OF h, of "[]"] by blast
qed

lemma insertLocked_dup:
  fixes mq :: "'d MessageQueue"
  assumes "sorted_wrt (<) (nonces mq)" and "tm_Nonce msg \<in> set (nonces mq)"
  shows "insertLocked mq msg = mq\<lparr>pending := (pending mq)(tm_Nonce msg \<mapsto> msg)\<rparr>"
proof -
  define ns where "ns = nonces mq"
  define x where "x = tm_Nonce msg"
  define idx where "idx = Search (length ns) (\<lambda>i. ns ! i \<ge> x)"
  have S: "idx \<le> length ns" "\<forall>a<idx. ns ! a < x" "\<forall>a. idx \<le> a \<and> a < length ns \<longrightarrow> x \<le> ns ! a"
    using Search_sorted[of ns x] assms(1) by (simp_all add: idx_def ns_def)
  from assms(2) obtain j where j: "j < length ns" "ns ! j = x"
    by (auto simp: in_set_conv_nth ns_def x_def)
  have "\<not> j < idx" using S(2) j by auto
  then have ij: "idx \<le> j" by simp
  have "\<not> idx < j"
  proof
    assume "idx < j"
    then have "ns ! idx < ns ! j" using assms(1) j(1) by (simp add: sorted_wrt_iff_nth_less ns_def)
    moreover have "x \<le> ns ! idx" using S(3) \<open>idx < j\<close> j(1) by simp
    ultimately show False using j(2) by simp
  qed
  with ij have "idx = j" by simp
  then have "idx \<noteq> length ns" "ns ! idx = x" using j by simp_all
  then show ?thesis
    unfolding insertLocked_def Let_def by (simp add: ns_def x_def idx_def)
qed

lemma insertLocked_any:
  fixes mq :: "'d MessageQueue"
  assumes "wfq mq"
  shows "wfq (insertLocked mq msg)"
    and "set (nonces (insertLocked mq msg)) = insert (tm_Nonce msg) (set (nonces mq))"
    and "nextExpectedNonce (insertLocked mq msg) = nextExpectedNonce mq"
proof -
  have srt: "sorted_wrt (<) (nonces mq)" using assms by (simp add: wfq_def)
  have "wfq (insertLocked mq msg) \<and> set (nonces (insertLocked mq msg)) = insert (tm_Nonce msg) (set (nonces mq))
      \<and> nextExpectedNonce (insertLocked mq msg) = nextExpectedNonce mq"
  proof (cases "tm_Nonce msg \<in> set (nonces mq)")
    case True
    have eq: "insertLocked mq msg = mq\<lparr>pending := (pending mq)(tm_Nonce msg \<mapsto> msg)\<rparr>"
      using insertLocked_dup[OF srt True] .
    have "wfq (mq\<lparr>pending := (pending mq)(tm_Nonce msg \<mapsto> msg)\<rparr>)"
      using assms True unfolding wfq_def by (auto split: if_splits)
    then show ?thesis unfolding eq using True by auto
  next
    case False
    from insertLocked_wfq[OF assms False] show ?thesis by simp
  qed
  then show "wfq (insertLocked mq msg)"
    and "set (nonces (insertLocked mq msg)) = insert (tm_Nonce msg) (set (nonces mq))"
    and "nextExpectedNonce (insertLocked mq msg) = nextExpectedNonce mq" by simp_all
qed

lemma push_seq_unarmed:
  fixes mq :: "'d MessageQueue"
  assumes "wfq mq" and "nextExpectedNonce mq = 0"
  shows "fst (push_seq nil mq fs) = replicate (length fs) ((None, False), (None, False))
     \<and> wfq (snd (push_seq nil mq fs)) \<and> nextExpectedNonce (snd (push_seq nil mq fs)) = 0
     \<and> set (nonces (snd (push_seq nil mq fs))) = set (nonces mq) \<union> set (map tm_Nonce fs)"
  using assms
proof (induction fs arbitrary: mq)
  case Nil
  then show ?case by simp
next
  case (Cons f fs)
  define mq1 where "mq1 = insertLocked mq f"
  note ins = insertLocked_any[OF Cons(2), of f, folded mq1_def]
  have T: "TryPush mq f = ((None, False), mq1)"
    using Cons(3) by (simp add: TryPush_def mq1_def)
  have z1: "nextExpectedNonce mq1 = 0" using ins(3) Cons(3) by simp
  have P: "Pop nil mq1 = ((None, False), mq1)" using z1 by (simp add: Pop_def)
  have step: "push_seq nil mq (f # fs)
      = (((None, False), (None, False)) # fst (push_seq nil mq1 fs), snd (push_seq nil mq1 fs))"
    by (simp add: T P Let_def)
  from Cons(1)[OF ins(1) z1] show ?case
    unfolding step using ins(2) by auto
qed

lemma push_seq_unarmed_buffered:
  fixes mq :: "'d MessageQueue"
  assumes "wfq mq" and "nextExpectedNonce mq = 0" and "distinct (map tm_Nonce fs)"
    and "\<forall>f\<in>set fs. tm_Nonce f \<notin> set (nonces mq)"
  shows "mset (buffered (snd (push_seq nil mq fs))) = mset (buffered mq) + mset fs"
  using assms
proof (induction fs arbitrary: mq)
  case Nil
  then show ?case by simp
next
  case (Cons f fs)
  define mq1 where "mq1 = insertLocked mq f"
  have fn: "tm_Nonce f \<notin> set (nonces mq)" using Cons(5) by simp
  note ins = insertLocked_wfq[OF Cons(2) fn, folded mq1_def]
  have T: "TryPush mq f = ((None, False), mq1)"
    using Cons(3) by (simp add: TryPush_def mq1_def)
  have z1: "nextExpectedNonce mq1 = 0" using ins(4) Cons(3) by simp
  have P: "Pop nil mq1 = ((None, False), mq1)" using z1 by (simp add: Pop_def)
  have step: "snd (push_seq nil mq (f # fs)) = snd (push_seq nil mq1 fs)"
    by (simp add: T P Let_def)
  have d: "distinct (map tm_Nonce fs)" and fnot: "tm_Nonce f \<notin> set (map tm_Nonce fs)"
    using Cons(4) by simp_all
  have pre: "\<forall>g\<in>set fs. tm_Nonce g \<notin> set (nonces mq1)"
  proof
    fix g assume g: "g \<in> set fs"
    then have "tm_Nonce g \<noteq> tm_Nonce f" using fnot by (metis image_eqI set_map)
    moreover have "tm_Nonce g \<notin> set (nonces mq)" using g Cons(5) by simp
    ultimately show "tm_Nonce g \<notin> set (nonces mq1)" using ins(3) by simp
  qed
  from Cons(1)[OF ins(1) z1 d pre] show ?case
    unfolding step using ins(2) by (simp add: add.assoc)
qed

text \<open>
  Claim C4 (pre-handshake buffering), as amended. For every sequence of frames pushed into a
  queue that has not been armed, every \<^verbatim>\<open>TryPush\<close> returns \<open>(none, false)\<close>, every \<^verbatim>\<open>Pop\<close>
  returns none, and the nonces of the pushed frames are the buffered ones. If the nonces of the
  frames are a permutation of \<open>1, \<dots>, N\<close>, then arming succeeds and repeated \<^verbatim>\<open>Pop\<close> yields all
  the buffered frames, in ascending nonce order.
\<close>

theorem prehandshake_buffering:
  fixes fs :: "'d TransportMessage list"
  shows "fst (push_seq nil New fs) = replicate (length fs) ((None, False), (None, False))
     \<and> set (PendingNonces (snd (push_seq nil New fs))) = set (map tm_Nonce fs)
     \<and> (mset (map (unat \<circ> tm_Nonce) fs) = mset [1..<Suc N] \<longrightarrow>
          (\<exists>q. SetConnectionMessageReceived (snd (push_seq nil New fs)) = Some q
             \<and> map (unat \<circ> tm_Nonce) (fst (pop_all nil q)) = [1..<Suc N]
             \<and> mset (fst (pop_all nil q)) = mset fs))"
proof -
  define qb where "qb = snd (push_seq nil (New :: 'd MessageQueue) fs)"
  have w0: "wfq (New :: 'd MessageQueue)" by (simp add: wfq_def New_def)
  have z0: "nextExpectedNonce (New :: 'd MessageQueue) = 0" by (simp add: New_def)
  from push_seq_unarmed[OF w0 z0, of nil fs]
  have res: "fst (push_seq nil New fs) = replicate (length fs) ((None, False), (None, False))"
    and wb: "wfq qb" and zb: "nextExpectedNonce qb = 0"
    and nb: "set (nonces qb) = set (map tm_Nonce fs)"
    by (simp_all add: qb_def New_def)
  have second: "\<exists>q. SetConnectionMessageReceived qb = Some q
             \<and> map (unat \<circ> tm_Nonce) (fst (pop_all nil q)) = [1..<Suc N]
             \<and> mset (fst (pop_all nil q)) = mset fs"
    if perm: "mset (map (unat \<circ> tm_Nonce) fs) = mset [1..<Suc N]"
  proof -
    define q where "q = qb\<lparr>nextExpectedNonce := 1\<rparr>"
    have arm: "SetConnectionMessageReceived qb = Some q"
      using zb by (simp add: SetConnectionMessageReceived_def q_def)
    have "distinct (map (unat \<circ> tm_Nonce) fs)"
      using perm by (metis distinct_upt mset_eq_imp_distinct_iff)
    then have d: "distinct (map tm_Nonce fs)"
      by (metis distinct_map list.map_comp)
    have b0: "buffered (New :: 'd MessageQueue) = []" by (simp add: buffered_def New_def)
    have "mset (buffered qb) = mset (buffered (New :: 'd MessageQueue)) + mset fs"
      unfolding qb_def by (rule push_seq_unarmed_buffered[OF w0 z0 d]) (simp add: New_def)
    then have bq: "mset (buffered q) = mset fs" using b0 by (simp add: buffered_def q_def)
    have wq: "wfq q" using wb by (simp add: wfq_def q_def)
    have neq: "nextExpectedNonce q = of_nat 1" by (simp add: q_def)
    have "set (map (unat \<circ> tm_Nonce) fs) = set [1..<Suc N]"
      using perm by (metis set_mset_mset)
    then have "\<forall>f\<in>set fs. 1 \<le> unat (tm_Nonce f)" by auto
    then have ge: "\<forall>n\<in>set (nonces q). 1 \<le> unat n"
      using nb by (auto simp: q_def)
    from pop_all_spec[OF wq neq _ _ ge, of nil]
    obtain k' where k': "1 \<le> k'" "wfq (snd (pop_all nil q))"
      "\<forall>n\<in>set (nonces (snd (pop_all nil q))). k' < unat n"
      "map (unat \<circ> tm_Nonce) (fst (pop_all nil q)) = [1..<k']"
      "fst (pop_all nil q) @ buffered (snd (pop_all nil q)) = buffered q"
      by auto
    define qf where "qf = snd (pop_all nil q)"
    have "mset (fst (pop_all nil q)) + mset (buffered qf) = mset fs"
      using k'(5) bq unfolding qf_def by (metis mset_append)
    then have tot: "mset (fst (pop_all nil q)) + mset (buffered qf) = mset fs" .
    then have "image_mset (unat \<circ> tm_Nonce) (mset (fst (pop_all nil q)) + mset (buffered qf))
      = image_mset (unat \<circ> tm_Nonce) (mset fs)" by simp
    then have "mset (map (unat \<circ> tm_Nonce) (fst (pop_all nil q))) + mset (map unat (map tm_Nonce (buffered qf)))
      = mset (map (unat \<circ> tm_Nonce) fs)" by simp
    then have "mset [1..<k'] + mset (map unat (nonces qf)) = mset [1..<Suc N]"
      using k'(4) buffered_nonces[OF k'(2)] perm by (simp add: qf_def)
    from complete_run[OF k'(1) k'(3)[folded qf_def] this]
    have kN: "k' = Suc N" and e: "nonces qf = []" by simp_all
    have "buffered qf = []" using e by (simp add: buffered_def)
    then have "mset (fst (pop_all nil q)) = mset fs" using tot by simp
    with arm k'(4) kN show ?thesis by blast
  qed
  show ?thesis
    using res nb second unfolding qb_def PendingNonces_def by blast
qed

theorem prehandshake_buffering_witness:
  "mset (map (unat \<circ> tm_Nonce) [frame 2, frame 3, frame 1]) = mset [1..<Suc 3]
   \<and> fst (push_seq [] New [frame 2, frame 3, frame 1]) = replicate 3 ((None, False), (None, False))
   \<and> set (PendingNonces (snd (push_seq [] New [frame 2, frame 3, frame 1]))) = {2, 3, 1}
   \<and> (\<exists>q. SetConnectionMessageReceived (snd (push_seq [] New [frame 2, frame 3, frame 1])) = Some q
         \<and> map (unat \<circ> tm_Nonce) (fst (pop_all [] q)) = [1..<Suc 3]
         \<and> mset (fst (pop_all [] q)) = mset [frame 2, frame 3, frame 1])"
proof -
  have h: "mset (map (unat \<circ> tm_Nonce) [frame 2, frame 3, frame 1]) = mset [1..<Suc 3]"
    by code_simp
  have s: "set (map tm_Nonce [frame 2, frame 3, frame 1]) = {2, 3, 1}"
    by (simp add: frame_def)
  have l: "length [frame 2, frame 3, frame 1] = 3"
    by simp
  show ?thesis
    using h prehandshake_buffering[of "[]" "[frame 2, frame 3, frame 1]" 3, unfolded l s] by blast
qed

text \<open>
  The claim as stated fails when the buffered nonces do not start at 1: a frame with nonce 2
  buffered before arming stays in the queue, and \<^verbatim>\<open>Pop\<close> yields nothing.
\<close>

theorem prehandshake_gap_counterexample:
  "fst (push_seq [] New [frame 2]) = [((None, False), (None, False))]
   \<and> SetConnectionMessageReceived (snd (push_seq [] New [frame 2])) = Some q_gap
   \<and> PendingNonces q_gap = [2]
   \<and> pop_all [] q_gap = ([], q_gap)"
proof -
  have S: "Search 0 f = 0" for f
    by (simp add: Search_def Search_loop.simps)
  have n: "tm_Nonce (frame 2) = 2" by (simp add: frame_def)
  have I: "insertLocked New (frame 2) = \<lparr>nextExpectedNonce = 0, pending = [2 \<mapsto> frame 2], nonces = [2]\<rparr>"
    unfolding insertLocked_def Let_def by (simp add: New_def S n)
  have T: "TryPush New (frame 2) = ((None, False), \<lparr>nextExpectedNonce = 0, pending = [2 \<mapsto> frame 2], nonces = [2]\<rparr>)"
    unfolding TryPush_def Let_def I by (simp add: New_def)
  have P: "Pop [] \<lparr>nextExpectedNonce = 0, pending = [2 \<mapsto> frame 2], nonces = [2::u64]\<rparr>
      = ((None, False), \<lparr>nextExpectedNonce = 0, pending = [2 \<mapsto> frame 2], nonces = [2]\<rparr>)"
    by (simp add: Pop_def)
  have A: "push_seq [] New [frame 2] = ([((None, False), (None, False))],
      \<lparr>nextExpectedNonce = 0, pending = [2 \<mapsto> frame 2], nonces = [2]\<rparr>)"
    by (simp add: T P Let_def)
  have G: "Pop [] q_gap = ((None, False), q_gap)"
    by (simp add: Pop_def q_gap_def)
  have "pop_all [] q_gap = ([], q_gap)"
    by (rule pop_all_stop) (simp add: G)
  then show ?thesis
    unfolding A by (simp add: SetConnectionMessageReceived_def q_gap_def PendingNonces_def)
qed

section \<open>Properties of the wire codec\<close>

lemma byte_slice:
  "bit (push_bit k (ucast (ucast (drop_bit k v) :: byte)) :: u64) n \<longleftrightarrow> k \<le> n \<and> n < k + 8 \<and> bit v n"
  for v :: u64
  by (auto simp: bit_simps dest: bit_imp_le_length)

lemma byte_slice0:
  "bit (ucast (ucast v :: byte) :: u64) n \<longleftrightarrow> n < 8 \<and> bit v n"
  for v :: u64
  by (auto simp: bit_simps dest: bit_imp_le_length)

lemma be_u64_roundtrip: "Uint64 (be_u64 v) = v"
proof (rule bit_word_eqI)
  fix n assume "n < LENGTH(64)"
  then have n: "n < 64" by simp
  have cover: "56 \<le> n \<and> n < 56 + 8 \<or> 48 \<le> n \<and> n < 48 + 8 \<or> 40 \<le> n \<and> n < 40 + 8 \<or> 32 \<le> n \<and> n < 32 + 8
     \<or> 24 \<le> n \<and> n < 24 + 8 \<or> 16 \<le> n \<and> n < 16 + 8 \<or> 8 \<le> n \<and> n < 8 + 8 \<or> n < 8"
    using n by arith
  have "bit (Uint64 (be_u64 v)) n \<longleftrightarrow>
      (56 \<le> n \<and> n < 56 + 8 \<and> bit v n) \<or> (48 \<le> n \<and> n < 48 + 8 \<and> bit v n) \<or> (40 \<le> n \<and> n < 40 + 8 \<and> bit v n)
      \<or> (32 \<le> n \<and> n < 32 + 8 \<and> bit v n) \<or> (24 \<le> n \<and> n < 24 + 8 \<and> bit v n) \<or> (16 \<le> n \<and> n < 16 + 8 \<and> bit v n)
      \<or> (8 \<le> n \<and> n < 8 + 8 \<and> bit v n) \<or> (n < 8 \<and> bit v n)"
    unfolding Uint64_def be_u64_def
    by (simp only: nth_Cons_0 nth_Cons_numeral nth_Cons_Suc numeral_nat bit_or_iff byte_slice byte_slice0 One_nat_def diff_Suc_1 pred_numeral_simps)
  then show "bit (Uint64 (be_u64 v)) n \<longleftrightarrow> bit v n"
    using cover by blast
qed

lemma byte_le3: "(t :: byte) \<le> 3 \<Longrightarrow> t = 0 \<or> t = 1 \<or> t = 2 \<or> t = 3"
proof -
  assume "t \<le> 3"
  then have "unat t \<le> 3" by (simp add: word_le_nat_alt)
  then have "unat t = 0 \<or> unat t = 1 \<or> unat t = 2 \<or> unat t = 3" by arith
  then show ?thesis by (auto simp: word_unat_eq_iff)
qed

lemma go_copy_exact:
  "off + length src \<le> length buf \<Longrightarrow> go_copy buf off src = take off buf @ src @ drop (off + length src) buf"
  by (simp add: go_copy_def)

lemma copy_into_exact:
  "length src = hi - lo \<Longrightarrow> lo \<le> hi \<Longrightarrow> hi \<le> length buf \<Longrightarrow>
     copy_into buf lo hi src = take lo buf @ src @ drop hi buf"
  by (simp add: copy_into_def go_copy_def)

lemma Bytes_concat:
  assumes "wf_Recipient r"
  shows "Bytes r = ClientIdentity r @ ClientEncryptionKey r @ Gateway r"
proof -
  have l: "length (ClientIdentity r) = 32" "length (ClientEncryptionKey r) = 32" "length (Gateway r) = 32"
    using assms by (simp_all add: wf_Recipient_def)
  have a: "copy_into (make_bytes RecipientLength) 0 32 (ClientIdentity r) = ClientIdentity r @ replicate 64 0"
    by (subst copy_into_exact) (simp_all add: l make_bytes_def RecipientLength_def)
  have b: "copy_into (ClientIdentity r @ replicate 64 0) 32 64 (ClientEncryptionKey r)
      = ClientIdentity r @ ClientEncryptionKey r @ replicate 32 0"
    by (subst copy_into_exact) (simp_all add: l)
  have c: "go_copy (ClientIdentity r @ ClientEncryptionKey r @ replicate 32 0) 64 (Gateway r)
      = ClientIdentity r @ ClientEncryptionKey r @ Gateway r"
    by (subst go_copy_exact) (simp_all add: l)
  show ?thesis unfolding Bytes_def Let_def a b c ..
qed

lemma Bytes_length: "wf_Recipient r \<Longrightarrow> length (Bytes r) = 96"
  by (simp add: Bytes_concat) (simp add: wf_Recipient_def)

lemma RecipientFromBytes_Bytes:
  assumes "wf_Recipient r"
  shows "RecipientFromBytes (Bytes r) = Inr r"
  using assms unfolding Bytes_concat[OF assms] RecipientFromBytes_def
  by (simp add: wf_Recipient_def RecipientLength_def)

lemma encodeSubstreamMessage_concat:
  assumes "length (sm_ID sm) = 32"
  shows "encodeSubstreamMessage sm = sm_ID sm @ [sm_Type sm] @ sm_Data sm"
proof -
  define n where "n = length (sm_Data sm)"
  have a: "copy_into (make_bytes (SubstreamIDLength + 1 + length (sm_Data sm))) 0 SubstreamIDLength (sm_ID sm)
      = sm_ID sm @ replicate (Suc n) 0"
    by (subst copy_into_exact) (simp_all add: assms make_bytes_def SubstreamIDLength_def n_def)
  have b: "(sm_ID sm @ replicate (Suc n) 0)[SubstreamIDLength := sm_Type sm] = sm_ID sm @ sm_Type sm # replicate n 0"
    using list_update_length[of "sm_ID sm" 0 "replicate n 0" "sm_Type sm"]
    by (simp add: assms SubstreamIDLength_def)
  have c: "go_copy (sm_ID sm @ sm_Type sm # replicate n 0) (SubstreamIDLength + 1) (sm_Data sm)
      = sm_ID sm @ [sm_Type sm] @ sm_Data sm"
    by (subst go_copy_exact) (simp_all add: assms SubstreamIDLength_def n_def)
  show ?thesis unfolding encodeSubstreamMessage_def Let_def a b c ..
qed

lemma decodeSubstreamMessage_concat:
  assumes "length sid = 32" and "t \<le> 3" and "t \<noteq> 3 \<longrightarrow> d = []"
  shows "decodeSubstreamMessage (sid @ [t] @ d) = Inr \<lparr>sm_ID = sid, sm_Type = t, sm_Data = d\<rparr>"
proof -
  have g: "go_copy (make_bytes (length d)) 0 d = d"
    by (subst go_copy_exact) (simp_all add: make_bytes_def)
  have t4: "t = 0 \<or> t = 1 \<or> t = 2 \<or> t = 3"
    using assms(2) by (rule byte_le3)
  have nth: "(sid @ [t] @ d) ! SubstreamIDLength = t"
    using assms(1) by (simp add: SubstreamIDLength_def nth_append)
  show ?thesis
    unfolding decodeSubstreamMessage_def Let_def nth
    using assms t4 g
    by (auto simp: SubstreamIDLength_def SubstreamMessageOpenRequest_def SubstreamMessageOpenResponse_def
          SubstreamMessageClose_def SubstreamMessageData_def)
qed

lemma be_u64_length: "length (be_u64 v) = 8"
  by (simp add: be_u64_def)

lemma encodeTransportMessage_concat:
  assumes "length (tm_ID tm) = 32"
  shows "encodeTransportMessage tm = be_u64 (tm_Nonce tm) @ tm_ID tm @ encodeSubstreamMessage (tm_Message tm)"
proof -
  define sub where "sub = encodeSubstreamMessage (tm_Message tm)"
  define n where "n = length sub"
  have a: "PutUint64 (make_bytes (8 + ConnectionIDLength + length sub)) 0 (tm_Nonce tm)
      = be_u64 (tm_Nonce tm) @ replicate (32 + n) 0"
    unfolding PutUint64_def
    by (subst copy_into_exact) (simp_all add: be_u64_length make_bytes_def ConnectionIDLength_def n_def)
  have b: "copy_into (be_u64 (tm_Nonce tm) @ replicate (32 + n) 0) 8 (8 + ConnectionIDLength) (tm_ID tm)
      = be_u64 (tm_Nonce tm) @ tm_ID tm @ replicate n 0"
    by (subst copy_into_exact) (simp_all add: be_u64_length assms ConnectionIDLength_def)
  have c: "go_copy (be_u64 (tm_Nonce tm) @ tm_ID tm @ replicate n 0) (8 + ConnectionIDLength) sub
      = be_u64 (tm_Nonce tm) @ tm_ID tm @ sub"
    by (subst go_copy_exact) (simp_all add: be_u64_length assms ConnectionIDLength_def n_def)
  show ?thesis unfolding encodeTransportMessage_def Let_def sub_def[symmetric] a b c ..
qed

lemma decodeTransportMessage_concat:
  assumes "length cid = 32" and "length sub \<ge> 33"
  shows "decodeTransportMessage (be_u64 v @ cid @ sub)
     = (case decodeSubstreamMessage sub of Inl e \<Rightarrow> Inl e
        | Inr s \<Rightarrow> Inr \<lparr>tm_Nonce = v, tm_Message = s, tm_ID = cid\<rparr>)"
  unfolding decodeTransportMessage_def Let_def
  using assms
  by (simp add: be_u64_length be_u64_roundtrip ConnectionIDLength_def SubstreamIDLength_def split: sum.split)

lemma encodeConnectionMessage_concat:
  assumes "length (cm_ID cm) = 32"
  shows "encodeConnectionMessage cm
     = cm_ID cm @ [case cm_Recipient cm of None \<Rightarrow> 0 | Some r \<Rightarrow> 1]
        @ (case cm_Recipient cm of None \<Rightarrow> [] | Some r \<Rightarrow> Bytes r) @ cm_PeerID cm"
proof -
  define flag :: byte where "flag = (case cm_Recipient cm of None \<Rightarrow> 0 | Some r \<Rightarrow> 1)"
  define rb where "rb = (case cm_Recipient cm of None \<Rightarrow> [] | Some r \<Rightarrow> Bytes r)"
  define n where "n = length rb + length (cm_PeerID cm)"
  have a: "copy_into (make_bytes (ConnectionIDLength + 1 + length rb + length (cm_PeerID cm))) 0 ConnectionIDLength (cm_ID cm)
      = cm_ID cm @ replicate (Suc n) 0"
    by (subst copy_into_exact) (simp_all add: assms make_bytes_def ConnectionIDLength_def n_def)
  have b: "(cm_ID cm @ replicate (Suc n) 0)[ConnectionIDLength := flag] = cm_ID cm @ flag # replicate n 0"
    using list_update_length[of "cm_ID cm" 0 "replicate n 0" flag]
    by (simp add: assms ConnectionIDLength_def)
  have c: "go_copy (cm_ID cm @ flag # replicate n 0) (ConnectionIDLength + 1) rb
      = cm_ID cm @ flag # rb @ replicate (length (cm_PeerID cm)) 0"
    by (subst go_copy_exact) (simp_all add: assms ConnectionIDLength_def n_def)
  have d: "go_copy (cm_ID cm @ flag # rb @ replicate (length (cm_PeerID cm)) 0)
        (ConnectionIDLength + 1 + length rb) (cm_PeerID cm)
      = cm_ID cm @ flag # rb @ cm_PeerID cm"
    by (subst go_copy_exact) (simp_all add: assms ConnectionIDLength_def)
  show ?thesis
    unfolding encodeConnectionMessage_def Let_def flag_def[symmetric] rb_def[symmetric] a b c d by simp
qed

lemma decodeConnectionMessage_concat:
  assumes "length cid = 32" and "trailing \<noteq> []"
    and "flag = 0 \<and> rb = [] \<or> flag = 1 \<and> length rb = 96"
  shows "decodeConnectionMessage idFromBytes (cid @ [flag] @ rb @ trailing)
     = (case idFromBytes trailing of
          Inl e \<Rightarrow> Inl ParsePeerIDFailed
        | Inr p \<Rightarrow> Inr \<lparr>cm_PeerID = p,
              cm_Recipient = (if flag = 1
                 then Some \<lparr>ClientIdentity = take 32 rb, ClientEncryptionKey = take 32 (drop 32 rb),
                            Gateway = take 32 (drop 64 rb)\<rparr>
                 else None),
              cm_ID = cid\<rparr>)"
proof -
  have nth: "(cid @ [flag] @ rb @ trailing) ! ConnectionIDLength = flag"
    using assms(1) by (simp add: ConnectionIDLength_def nth_append)
  have len: "length trailing > 0" using assms(2) by simp
  from assms(3) show ?thesis
  proof
    assume f: "flag = 0 \<and> rb = []"
    show ?thesis
      unfolding decodeConnectionMessage_def Let_def nth
      using f assms(1) len by (simp add: ConnectionIDLength_def split: sum.split)
  next
    assume f: "flag = 1 \<and> length rb = 96"
    have R: "RecipientFromBytes (take RecipientLength (drop (ConnectionIDLength + 1) (cid @ [flag] @ rb @ trailing)))
        = Inr \<lparr>ClientIdentity = take 32 rb, ClientEncryptionKey = take 32 (drop 32 rb),
                            Gateway = take 32 (drop 64 rb)\<rparr>"
      using f assms(1) by (simp add: RecipientFromBytes_def RecipientLength_def ConnectionIDLength_def)
    show ?thesis
      unfolding decodeConnectionMessage_def Let_def nth R
      using f assms(1) len by (simp add: ConnectionIDLength_def RecipientLength_def split: sum.split)
  qed
qed

lemma Encode_frame:
  "go_copy ((make_bytes (1 + length payload))[0 := t]) 1 payload = t # payload"
proof -
  have "(make_bytes (1 + length payload))[0 := t] = t # replicate (length payload) 0"
    by (simp add: make_bytes_def)
  then show ?thesis by (simp add: go_copy_def)
qed

lemma Encode_frame_Suc:
  "go_copy ((make_bytes (Suc (length payload)))[0 := t]) (Suc 0) payload = t # payload"
  using Encode_frame[of payload t] by simp

lemma Recipient_of_Bytes:
  assumes "wf_Recipient r"
  shows "\<lparr>ClientIdentity = take 32 (Bytes r), ClientEncryptionKey = take 32 (drop 32 (Bytes r)),
          Gateway = take 32 (drop 64 (Bytes r))\<rparr> = r"
proof -
  have l: "length (ClientIdentity r) = 32" "length (ClientEncryptionKey r) = 32" "length (Gateway r) = 32"
    using assms by (simp_all add: wf_Recipient_def)
  have a: "take 32 (Bytes r) = ClientIdentity r"
    and b: "take 32 (drop 32 (Bytes r)) = ClientEncryptionKey r"
    and c: "take 32 (drop 64 (Bytes r)) = Gateway r"
    unfolding Bytes_concat[OF assms] by (simp_all add: l)
  show ?thesis unfolding a b c by simp
qed

lemma connection_roundtrip:
  assumes "wf_ConnectionMessage idFromBytes cm"
  shows "decodeConnectionMessage idFromBytes (encodeConnectionMessage cm) = Inr cm"
proof -
  have l: "length (cm_ID cm) = 32" and p: "cm_PeerID cm \<noteq> []"
    and v: "idFromBytes (cm_PeerID cm) = Inr (cm_PeerID cm)"
    using assms by (simp_all add: wf_ConnectionMessage_def ConnectionIDLength_def)
  show ?thesis
  proof (cases "cm_Recipient cm")
    case None
    have "decodeConnectionMessage idFromBytes (cm_ID cm @ [0] @ [] @ cm_PeerID cm)
        = Inr \<lparr>cm_PeerID = cm_PeerID cm, cm_Recipient = None, cm_ID = cm_ID cm\<rparr>"
      by (subst decodeConnectionMessage_concat[OF l p]) (simp_all add: v)
    then show ?thesis
      unfolding encodeConnectionMessage_concat[OF l] using None by simp
  next
    case (Some r)
    then have w: "wf_Recipient r" using assms by (simp add: wf_ConnectionMessage_def)
    have "flag = 0 \<and> Bytes r = [] \<or> flag = 1 \<and> length (Bytes r) = 96" if "flag = 1" for flag :: byte
      using that by (simp add: Bytes_length[OF w])
    note dc = decodeConnectionMessage_concat[OF l p this, of 1, OF refl, of idFromBytes]
    have "decodeConnectionMessage idFromBytes (cm_ID cm @ [1] @ Bytes r @ cm_PeerID cm)
        = Inr \<lparr>cm_PeerID = cm_PeerID cm, cm_Recipient = Some r, cm_ID = cm_ID cm\<rparr>"
      unfolding dc Recipient_of_Bytes[OF w] v by simp
    then show ?thesis
      unfolding encodeConnectionMessage_concat[OF l] using Some by simp
  qed
qed

lemma substream_roundtrip:
  assumes "wf_SubstreamMessage sm"
  shows "decodeSubstreamMessage (encodeSubstreamMessage sm) = Inr sm"
proof -
  have l: "length (sm_ID sm) = 32" and t: "sm_Type sm \<le> 3" and d: "sm_Type sm \<noteq> 3 \<longrightarrow> sm_Data sm = []"
    using assms by (auto simp: wf_SubstreamMessage_def SubstreamIDLength_def SubstreamMessageData_def)
  show ?thesis
    unfolding encodeSubstreamMessage_concat[OF l] decodeSubstreamMessage_concat[OF l t d] by simp
qed

lemma transport_roundtrip:
  assumes "wf_TransportMessage tm"
  shows "decodeTransportMessage (encodeTransportMessage tm) = Inr tm"
proof -
  have l: "length (tm_ID tm) = 32" and w: "wf_SubstreamMessage (tm_Message tm)"
    using assms by (simp_all add: wf_TransportMessage_def ConnectionIDLength_def)
  have ls: "length (sm_ID (tm_Message tm)) = 32"
    using w by (simp add: wf_SubstreamMessage_def SubstreamIDLength_def)
  have n: "length (encodeSubstreamMessage (tm_Message tm)) \<ge> 33"
    unfolding encodeSubstreamMessage_concat[OF ls] by (simp add: ls)
  show ?thesis
    unfolding encodeTransportMessage_concat[OF l] decodeTransportMessage_concat[OF l n]
      substream_roundtrip[OF w] by simp
qed

text \<open>
  Claim C2 (codec round-trip). For every well-formed top-level message \<open>m\<close> (a ConnectionRequest or
  ConnectionResponse with a 32-byte ConnectionID, an optional recipient of three 32-byte keys and
  a non-empty peer identity that \<^verbatim>\<open>peer.IDFromBytes\<close> accepts; or a Transport message with a
  nonce, a 32-byte ConnectionID and a substream message whose payload is empty unless its tag is
  Data), \<^verbatim>\<open>Encode\<close> succeeds and \<^verbatim>\<open>Decode\<close> of its result succeeds and returns \<open>m\<close>.
\<close>

theorem codec_roundtrip:
  assumes "wf_Message idFromBytes m"
  shows "\<exists>bs. Encode (Some m) = Inr bs \<and> Decode idFromBytes bs = Inr m"
proof (cases "msg_Type m = MessageTypeConnectionRequest \<or> msg_Type m = MessageTypeConnectionResponse")
  case True
  with assms obtain cm where cm: "msg_Connection m = Some cm" "wf_ConnectionMessage idFromBytes cm"
    and tn: "msg_Transport m = None"
    by (auto simp: wf_Message_def split: option.splits)
  have E: "Encode (Some m) = Inr (msg_Type m # encodeConnectionMessage cm)"
    using True cm(1) by (auto simp: Encode_def Let_def Encode_frame_Suc)
  have D: "Decode idFromBytes (msg_Type m # encodeConnectionMessage cm)
      = Inr \<lparr>msg_Type = msg_Type m, msg_Connection = Some cm, msg_Transport = None\<rparr>"
    using True by (auto simp: Decode_def Let_def connection_roundtrip[OF cm(2)])
  have "\<lparr>msg_Type = msg_Type m, msg_Connection = Some cm, msg_Transport = None\<rparr> = m"
    using cm(1) tn by simp
  with E D show ?thesis by simp
next
  case False
  with assms have ty: "msg_Type m = MessageTypeTransport" by (auto simp: wf_Message_def split: if_splits)
  with False assms obtain tm where tm: "msg_Transport m = Some tm" "wf_TransportMessage tm"
    and cn: "msg_Connection m = None"
    by (auto simp: wf_Message_def split: option.splits)
  have ne: "MessageTypeTransport \<noteq> MessageTypeConnectionRequest" "MessageTypeTransport \<noteq> MessageTypeConnectionResponse"
    by (simp_all add: MessageTypeTransport_def MessageTypeConnectionRequest_def MessageTypeConnectionResponse_def)
  have E: "Encode (Some m) = Inr (msg_Type m # encodeTransportMessage tm)"
    using ty ne tm(1) by (simp add: Encode_def Let_def Encode_frame_Suc)
  have D: "Decode idFromBytes (msg_Type m # encodeTransportMessage tm)
      = Inr \<lparr>msg_Type = msg_Type m, msg_Connection = None, msg_Transport = Some tm\<rparr>"
    using ty ne by (simp add: Decode_def Let_def transport_roundtrip[OF tm(2)])
  have "\<lparr>msg_Type = msg_Type m, msg_Connection = None, msg_Transport = Some tm\<rparr> = m"
    using tm(1) cn by simp
  with E D show ?thesis by simp
qed

lemma IDFromBytes_example: "IDFromBytes [0x00, 0x01, 0x2A] = Inr [0x00, 0x01, 0x2A]"
  by (simp add: IDFromBytes_def multihash_Cast_def FromUvarint_def)

lemma IDFromBytes_single: "IDFromBytes [0x00] = Inl InvalidMultihash"
  by (simp add: IDFromBytes_def multihash_Cast_def)

theorem codec_roundtrip_witness:
  "wf_Message IDFromBytes example_request
   \<and> (\<exists>bs. Encode (Some example_request) = Inr bs \<and> Decode IDFromBytes bs = Inr example_request)"
proof -
  have h: "wf_Message IDFromBytes example_request"
    by (simp add: wf_Message_def example_request_def wf_ConnectionMessage_def wf_Recipient_def
          IDFromBytes_example ConnectionIDLength_def MessageTypeConnectionRequest_def)
  show ?thesis using h codec_roundtrip[OF h] by simp
qed

text \<open>
  Claim C7 (peer identity in the codec), as amended. Decoding a ConnectionRequest or
  ConnectionResponse hands the trailing bytes to \<^verbatim>\<open>peer.IDFromBytes\<close>: for every payload with a
  32-byte ConnectionID, a recipient flag of 0 or 1 with the matching optional 96-byte recipient
  and a non-empty trailing byte sequence, decoding succeeds exactly when \<^verbatim>\<open>peer.IDFromBytes\<close>
  accepts the trailing bytes, and the peer identity of the result is what it returns; when it
  rejects them, decoding fails with the parse-peer-id error.
\<close>

theorem decode_peer_identity:
  assumes "t = MessageTypeConnectionRequest \<or> t = MessageTypeConnectionResponse"
    and "length cid = 32" and "trailing \<noteq> []"
    and "flag = 0 \<and> rb = [] \<or> flag = 1 \<and> length rb = 96"
  shows "Decode idFromBytes (t # cid @ [flag] @ rb @ trailing)
     = (case idFromBytes trailing of
          Inl e \<Rightarrow> Inl ParsePeerIDFailed
        | Inr p \<Rightarrow>
            Inr \<lparr>msg_Type = t,
                 msg_Connection = Some \<lparr>cm_PeerID = p,
                   cm_Recipient = (if flag = 1
                     then Some \<lparr>ClientIdentity = take 32 rb, ClientEncryptionKey = take 32 (drop 32 rb),
                            Gateway = take 32 (drop 64 rb)\<rparr>
                     else None),
                   cm_ID = cid\<rparr>,
                 msg_Transport = None\<rparr>)"
  unfolding Decode_def Let_def
  using assms(1) decodeConnectionMessage_concat[OF assms(2,3,4), of idFromBytes]
  by (auto split: sum.split)

theorem decode_peer_identity_witness:
  "Decode IDFromBytes (0 # replicate 32 0x11 @ [0] @ [] @ [0x00, 0x01, 0x2A])
     = Inr \<lparr>msg_Type = 0,
            msg_Connection = Some \<lparr>cm_PeerID = [0x00, 0x01, 0x2A], cm_Recipient = None,
                                   cm_ID = replicate 32 0x11\<rparr>,
            msg_Transport = None\<rparr>"
  using decode_peer_identity[of 0 "replicate 32 0x11" "[0x00, 0x01, 0x2A]" 0 "[]" IDFromBytes]
  by (simp add: MessageTypeConnectionRequest_def IDFromBytes_example)

text \<open>
  The claim as stated fails: the single trailing byte \<open>0x00\<close> is non-empty but is not a multihash,
  and decoding fails.
\<close>

theorem decode_peer_identity_counterexample:
  "Decode IDFromBytes (0 # replicate 32 0x11 @ [0] @ [] @ [0x00]) = Inl ParsePeerIDFailed"
  by (simp add: Decode_def decodeConnectionMessage_def Let_def MessageTypeConnectionRequest_def
      ConnectionIDLength_def nth_append IDFromBytes_single)

section \<open>Properties of the gateway requests\<close>

lemma unat_byte_slice: "unat (ucast (drop_bit k v) :: byte) = (unat v div 2 ^ k) mod 256"
  for v :: u64
  unfolding unsigned_ucast_eq unat_drop_bit_eq
  by (simp add: take_bit_eq_mod drop_bit_eq_div)

lemma horner_step: "(x div 2 ^ (k + 8)) * 256 + (x div 2 ^ k) mod 256 = x div 2 ^ k"
  for x :: nat
proof -
  have "x div 2 ^ (k + 8) = (x div 2 ^ k) div 256"
    by (simp add: power_add div_mult2_eq)
  then show ?thesis by (simp add: div_mult_mod_eq)
qed

lemma be_value_be_u64: "be_value (be_u64 v) = unat v"
proof -
  define x where "x = unat v"
  have x: "x < 2 ^ 64" unfolding x_def by (rule u64_unat_bound)
  have h7: "(x div 2 ^ 56) mod 256 = x div 2 ^ 56"
    using x by (simp add: less_mult_imp_div_less)
  have s6: "(x div 2 ^ 56) * 256 + (x div 2 ^ 48) mod 256 = x div 2 ^ 48" using horner_step[of x 48] by simp
  have s5: "(x div 2 ^ 48) * 256 + (x div 2 ^ 40) mod 256 = x div 2 ^ 40" using horner_step[of x 40] by simp
  have s4: "(x div 2 ^ 40) * 256 + (x div 2 ^ 32) mod 256 = x div 2 ^ 32" using horner_step[of x 32] by simp
  have s3: "(x div 2 ^ 32) * 256 + (x div 2 ^ 24) mod 256 = x div 2 ^ 24" using horner_step[of x 24] by simp
  have s2: "(x div 2 ^ 24) * 256 + (x div 2 ^ 16) mod 256 = x div 2 ^ 16" using horner_step[of x 16] by simp
  have s1: "(x div 2 ^ 16) * 256 + (x div 2 ^ 8) mod 256 = x div 2 ^ 8" using horner_step[of x 8] by simp
  have s0: "(x div 2 ^ 8) * 256 + x mod 256 = x" using horner_step[of x 0] by simp
  have u0: "unat (ucast v :: byte) = x mod 256"
    using unat_byte_slice[of 0 v] by (simp add: x_def)
  define d7 d6 d5 d4 d3 d2 d1 d0 where "d7 = (x div 2 ^ 56) mod 256" and "d6 = (x div 2 ^ 48) mod 256"
    and "d5 = (x div 2 ^ 40) mod 256" and "d4 = (x div 2 ^ 32) mod 256" and "d3 = (x div 2 ^ 24) mod 256"
    and "d2 = (x div 2 ^ 16) mod 256" and "d1 = (x div 2 ^ 8) mod 256" and "d0 = x mod 256"
  note ds = d7_def d6_def d5_def d4_def d3_def d2_def d1_def d0_def
  have "be_value (be_u64 v)
      = ((((((d7 * 256 + d6) * 256 + d5) * 256 + d4) * 256 + d3) * 256 + d2) * 256 + d1) * 256 + d0"
    unfolding be_value_def be_u64_def foldl_Cons foldl_Nil unat_byte_slice u0 ds x_def by simp
  also have "\<dots> = x"
    unfolding ds h7 s6 s5 s4 s3 s2 s1 s0 ..
  finally show ?thesis by (simp add: x_def)
qed

text \<open>
  Claim C6 (gateway send request). For every recipient \<open>r\<close> (three 32-byte keys) and every payload
  \<open>p\<close>, the serialized send request is the byte \<open>0x00\<close>, the 96 bytes of \<open>r\<close>, eight zero bytes, eight
  bytes that denote the length of \<open>p\<close> in big-endian order, and \<open>p\<close>; its length is \<open>113 + |p|\<close>.
\<close>

theorem send_request_layout:
  assumes "wf_Recipient r" and "length p < 2 ^ 64"
  shows "serializeSendRequest r p = [0x00] @ Bytes r @ replicate 8 0 @ be_u64 (of_nat (length p)) @ p
     \<and> length (Bytes r) = 96
     \<and> length (be_u64 (of_nat (length p))) = 8
     \<and> be_value (be_u64 (of_nat (length p))) = length p
     \<and> length (serializeSendRequest r p) = 113 + length p"
proof -
  define n where "n = length p"
  define L where "L = be_u64 (of_nat n)"
  have lb: "length (Bytes r) = 96" using assms(1) by (rule Bytes_length)
  have lL: "length L = 8" by (simp add: L_def be_u64_length)
  have "1 + RecipientLength + 8 + 8 + n = Suc (96 + 8 + 8 + n)"
    by (simp add: RecipientLength_def)
  then have a: "(make_bytes (1 + RecipientLength + 8 + 8 + n))[0 := requestTagSend] = 0 # replicate (96 + 8 + 8 + n) 0"
    unfolding make_bytes_def by (simp only: replicate_Suc list_update_code requestTagSend_def)
  have b: "copy_into (0 # replicate (96 + 8 + 8 + n) 0) 1 (1 + RecipientLength) (Bytes r)
      = [0] @ Bytes r @ replicate (8 + 8 + n) 0"
    by (subst copy_into_exact) (simp_all add: lb RecipientLength_def)
  have c: "PutUint64 ([0] @ Bytes r @ replicate (8 + 8 + n) 0) (1 + RecipientLength + 8) (of_nat n)
      = [0] @ Bytes r @ replicate 8 0 @ L @ replicate n 0"
    unfolding PutUint64_def L_def[symmetric]
    by (subst copy_into_exact) (simp_all add: lb lL RecipientLength_def replicate_add[symmetric])
  have d: "go_copy ([0] @ Bytes r @ replicate 8 0 @ L @ replicate n 0) (1 + RecipientLength + 8 + 8) p
      = [0] @ Bytes r @ replicate 8 0 @ L @ p"
    by (subst go_copy_exact) (simp_all add: lb lL RecipientLength_def n_def)
  have eq: "serializeSendRequest r p = [0] @ Bytes r @ replicate 8 0 @ L @ p"
    unfolding serializeSendRequest_def Let_def n_def[symmetric] a b c d ..
  have v: "be_value L = n"
    unfolding L_def be_value_be_u64 using assms(2) by (simp add: n_def u64_of_nat_unat)
  have lp: "length p = n" by (simp add: n_def)
  show ?thesis
    unfolding eq lp L_def[symmetric] using lb lL v lp by simp
qed

theorem send_request_layout_witness:
  "wf_Recipient example_recipient \<and> length [0xAA, 0xBB :: byte] < 2 ^ 64
   \<and> serializeSendRequest example_recipient [0xAA, 0xBB]
       = [0x00] @ Bytes example_recipient @ replicate 8 0 @ be_u64 (of_nat (length [0xAA, 0xBB :: byte])) @ [0xAA, 0xBB]
   \<and> be_value (be_u64 (of_nat (length [0xAA, 0xBB :: byte]))) = 2
   \<and> length (serializeSendRequest example_recipient [0xAA, 0xBB]) = 115"
proof -
  have h: "wf_Recipient example_recipient"
    by (simp add: wf_Recipient_def example_recipient_def)
  have l: "length [0xAA, 0xBB :: byte] < 2 ^ 64" by simp
  show ?thesis using h l send_request_layout[OF h l] by simp
qed

section \<open>Properties of the address\<close>

lemma Split_none: "sep \<notin> set s \<Longrightarrow> Split s sep = [s]"
  by (induction s) auto

lemma Split_once: "sep \<notin> set a \<Longrightarrow> Split (a @ sep # b) sep = a # Split b sep"
  by (induction a) auto

lemma decodeBase58To32_ok:
  "b58decode s = Inr k \<Longrightarrow> length k = 32 \<Longrightarrow> decodeBase58To32 b58decode s = Inr k"
  by (simp add: decodeBase58To32_def go_copy_def make_bytes_def)

text \<open>
  Claim C3 (address round-trip). Let \<open>k1\<close>, \<open>k2\<close>, \<open>k3\<close> be 32-byte keys whose base58 renderings
  decode back to them and contain neither \<open>.\<close> nor \<open>@\<close> (the base58 alphabet has neither), and let
  \<open>T\<close> be the text \<open>ident.enc@gw\<close> made of the three renderings. Then \<^verbatim>\<open>ParseRecipient\<close> succeeds on
  \<open>T\<close>, \<^verbatim>\<open>String\<close> of the result is \<open>T\<close>, and \<^verbatim>\<open>Bytes\<close> of the result is the 96-byte concatenation
  of the three keys.
\<close>

theorem recipient_roundtrip:
  assumes len: "length k1 = 32" "length k2 = 32" "length k3 = 32"
    and dec: "b58decode (b58encode k1) = Inr k1" "b58decode (b58encode k2) = Inr k2"
             "b58decode (b58encode k3) = Inr k3"
    and sep: "CHR ''.'' \<notin> set (b58encode k1)" "CHR ''@'' \<notin> set (b58encode k1)"
             "CHR ''.'' \<notin> set (b58encode k2)" "CHR ''@'' \<notin> set (b58encode k2)"
             "CHR ''@'' \<notin> set (b58encode k3)"
  shows "\<exists>r. ParseRecipient b58decode (b58encode k1 @ [CHR ''.''] @ b58encode k2 @ [CHR ''@''] @ b58encode k3)
               = Inr r
     \<and> Recipient_String b58encode r = b58encode k1 @ [CHR ''.''] @ b58encode k2 @ [CHR ''@''] @ b58encode k3
     \<and> Bytes r = k1 @ k2 @ k3 \<and> length (Bytes r) = 96"
proof -
  define T where "T = b58encode k1 @ [CHR ''.''] @ b58encode k2 @ [CHR ''@''] @ b58encode k3"
  define r where "r = \<lparr>ClientIdentity = k1, ClientEncryptionKey = k2, Gateway = k3\<rparr>"
  have noat: "CHR ''@'' \<notin> set (b58encode k1 @ [CHR ''.''] @ b58encode k2)"
    using sep by simp
  have "T = (b58encode k1 @ [CHR ''.''] @ b58encode k2) @ CHR ''@'' # b58encode k3"
    by (simp add: T_def)
  then have parts: "Split T CHR ''@'' = [b58encode k1 @ [CHR ''.''] @ b58encode k2, b58encode k3]"
    using Split_once[OF noat, of "b58encode k3"] Split_none[OF sep(5)] by simp
  have client: "Split (b58encode k1 @ CHR ''.'' # b58encode k2) CHR ''.'' = [b58encode k1, b58encode k2]"
    using Split_once[OF sep(1), of "b58encode k2"] Split_none[OF sep(3)] by simp
  have d1: "decodeBase58To32 b58decode (b58encode k1) = Inr k1"
    and d2: "decodeBase58To32 b58decode (b58encode k2) = Inr k2"
    and d3: "decodeBase58To32 b58decode (b58encode k3) = Inr k3"
    using dec len by (simp_all add: decodeBase58To32_ok)
  have P: "ParseRecipient b58decode T = Inr r"
    unfolding ParseRecipient_def Let_def parts
    by (simp add: client d1 d2 d3 r_def)
  have w: "wf_Recipient r" using len by (simp add: wf_Recipient_def r_def)
  have S: "Recipient_String b58encode r = T"
    by (simp add: Recipient_String_def r_def T_def)
  have B: "Bytes r = k1 @ k2 @ k3" using Bytes_concat[OF w] by (simp add: r_def)
  show ?thesis
    using P S B Bytes_length[OF w] unfolding T_def by blast
qed

lemma b58_alphabet_length: "length b58_alphabet = 58"
  by (simp add: b58_alphabet_def)

lemma b58_alphabet_distinct: "distinct b58_alphabet"
  by (simp add: b58_alphabet_def)

lemma b58_alphabet_hd: "b58_alphabet ! 0 = CHR ''1''"
  by (simp add: b58_alphabet_def)

lemma b58_alphabet_seps: "CHR ''.'' \<notin> set b58_alphabet \<and> CHR ''@'' \<notin> set b58_alphabet"
  by (simp add: b58_alphabet_def)

lemma b58_index_nth: "distinct xs \<Longrightarrow> i < length xs \<Longrightarrow> b58_index xs (xs ! i) = i"
proof (induction xs arbitrary: i)
  case Nil
  then show ?case by simp
next
  case (Cons a xs)
  show ?case
  proof (cases i)
    case 0
    then show ?thesis by simp
  next
    case (Suc j)
    with Cons.prems have "j < length xs" "xs ! j \<in> set xs" "a \<notin> set xs" by auto
    then have "a \<noteq> xs ! j" by auto
    with Suc Cons show ?thesis by simp
  qed
qed

lemma be_value_snoc: "be_value (bs @ [b]) = be_value bs * 256 + unat b"
  by (simp add: be_value_def)

lemma be_value_zero_iff: "be_value bs = 0 \<longleftrightarrow> (\<forall>b\<in>set bs. b = 0)"
proof (induction bs rule: rev_induct)
  case Nil
  then show ?case by (simp add: be_value_def)
next
  case (snoc b bs)
  have "unat b = 0 \<longleftrightarrow> b = 0" by (simp add: unat_eq_0)
  with snoc show ?case by (auto simp: be_value_snoc)
qed

lemma byte_unat_lt: "unat (b :: byte) < 256"
  using unsigned_less[of b, where ?'a = nat] by simp

lemma nat_bytes_be_value: "nat_bytes (be_value bs) = dropWhile (\<lambda>b. b = 0) bs"
proof (induction bs rule: rev_induct)
  case Nil
  then show ?case by (simp add: be_value_def nat_bytes.simps)
next
  case (snoc b bs)
  define v where "v = be_value bs"
  show ?case
  proof (cases "v * 256 + unat b = 0")
    case True
    then have "be_value (bs @ [b]) = 0" by (simp add: be_value_snoc v_def)
    then have z: "\<forall>x\<in>set (bs @ [b]). x = 0" by (simp only: be_value_zero_iff)
    then have "dropWhile (\<lambda>b. b = 0) (bs @ [b]) = []" by (simp only: dropWhile_eq_Nil_conv)
    moreover have "nat_bytes (be_value (bs @ [b])) = []"
      using True by (simp add: be_value_snoc v_def nat_bytes.simps)
    ultimately show ?thesis by simp
  next
    case False
    have d: "(v * 256 + unat b) div 256 = v" using byte_unat_lt[of b] by simp
    have m: "(v * 256 + unat b) mod 256 = unat b" using byte_unat_lt[of b] by simp
    have "nat_bytes (v * 256 + unat b) = nat_bytes v @ [of_nat (unat b)]"
      using False by (subst nat_bytes.simps) (simp only: d m if_False)
    then have nb: "nat_bytes (be_value (bs @ [b])) = dropWhile (\<lambda>b. b = 0) bs @ [b]"
      using snoc by (simp add: be_value_snoc v_def)
    have "dropWhile (\<lambda>b. b = 0) (bs @ [b]) = dropWhile (\<lambda>b. b = 0) bs @ [b]"
    proof (cases "\<forall>x\<in>set bs. x = 0")
      case True
      then have "v = 0" by (simp add: v_def be_value_zero_iff)
      with False have "b \<noteq> 0" by auto
      with True show ?thesis by (simp add: dropWhile_append2)
    next
      case False
      then show ?thesis by (auto simp: dropWhile_append1)
    qed
    with nb show ?thesis by simp
  qed
qed

lemma b58_value_snoc: "b58_value (s @ [c]) = b58_value s * 58 + b58_index b58_alphabet c"
  by (simp add: b58_value_def)

lemma b58_value_digits: "b58_value (b58_digits n) = n"
proof (induction n rule: b58_digits.induct)
  case (1 n)
  show ?case
  proof (cases "n = 0")
    case True
    then show ?thesis by (simp add: b58_digits.simps b58_value_def)
  next
    case False
    have i: "b58_index b58_alphabet (b58_alphabet ! (n mod 58)) = n mod 58"
      by (rule b58_index_nth[OF b58_alphabet_distinct]) (simp add: b58_alphabet_length)
    have "b58_digits n = b58_digits (n div 58) @ [b58_alphabet ! (n mod 58)]"
      using False by (subst b58_digits.simps) simp
    then show ?thesis using 1[OF False] i by (simp add: b58_value_snoc)
  qed
qed

lemma b58_digits_alphabet: "set (b58_digits n) \<subseteq> set b58_alphabet"
proof (induction n rule: b58_digits.induct)
  case (1 n)
  show ?case
  proof (cases "n = 0")
    case True
    then show ?thesis by (simp add: b58_digits.simps)
  next
    case False
    have "b58_alphabet ! (n mod 58) \<in> set b58_alphabet"
      by (rule nth_mem) (simp add: b58_alphabet_length)
    moreover have "b58_digits n = b58_digits (n div 58) @ [b58_alphabet ! (n mod 58)]"
      using False by (subst b58_digits.simps) simp
    ultimately show ?thesis using 1[OF False] by simp
  qed
qed

lemma b58_digits_leading: "0 < n \<Longrightarrow> b58_digits n \<noteq> [] \<and> hd (b58_digits n) \<noteq> CHR ''1''"
proof (induction n rule: b58_digits.induct)
  case (1 n)
  then have nz: "n \<noteq> 0" by simp
  have eq: "b58_digits n = b58_digits (n div 58) @ [b58_alphabet ! (n mod 58)]"
    using nz by (subst b58_digits.simps) simp
  show ?case
  proof (cases "n div 58 = 0")
    case True
    then have small: "n < 58" by (simp add: div_eq_0_iff)
    have "b58_digits (n div 58) = []" using True by (simp add: b58_digits.simps)
    then have d: "b58_digits n = [b58_alphabet ! n]" using eq small by simp
    have "b58_alphabet ! n \<noteq> b58_alphabet ! 0"
      using b58_alphabet_distinct small nz
      by (simp add: nth_eq_iff_index_eq b58_alphabet_length)
    then show ?thesis using d by (simp add: b58_alphabet_hd)
  next
    case False
    then have "0 < n div 58" by simp
    from 1(1)[OF nz this] show ?thesis using eq by simp
  qed
qed

lemma b58_value_ones: "b58_value (replicate z CHR ''1'' @ s) = b58_value s"
proof -
  have i: "b58_index b58_alphabet CHR ''1'' = 0" by (simp add: b58_alphabet_def)
  have "foldl (\<lambda>a c. a * 58 + b58_index b58_alphabet c) 0 (replicate z CHR ''1'') = 0"
    by (induction z) (simp_all add: i)
  then show ?thesis by (simp add: b58_value_def)
qed

lemma takeWhile_replicate_hd:
  "s = [] \<or> hd s \<noteq> c \<Longrightarrow> takeWhile (\<lambda>x. x = c) (replicate z c @ s) = replicate z c"
  by (induction z) (auto simp: takeWhile_eq_Nil_iff)

lemma takeWhile_zero: "takeWhile (\<lambda>b. b = c) bs = replicate (length (takeWhile (\<lambda>b. b = c) bs)) c"
  by (induction bs) auto

lemma base58_roundtrip:
  assumes "bs \<noteq> []"
  shows "base58_Decode (base58_Encode bs) = Inr bs"
proof -
  define z where "z = length (takeWhile (\<lambda>b. b = 0) bs)"
  define n where "n = be_value bs"
  define ds where "ds = b58_digits n"
  have enc: "base58_Encode bs = replicate z CHR ''1'' @ ds"
    by (simp add: base58_Encode_def z_def n_def ds_def)
  have split: "bs = replicate z 0 @ dropWhile (\<lambda>b. b = 0) bs"
    using takeWhile_zero[of 0 bs] takeWhile_dropWhile_id[of "\<lambda>b. b = 0" bs] by (simp add: z_def)
  have lead: "ds = [] \<or> hd ds \<noteq> CHR ''1''"
  proof (cases "n = 0")
    case True
    then show ?thesis by (simp add: ds_def b58_digits.simps)
  next
    case False
    then show ?thesis using b58_digits_leading[of n] by (simp add: ds_def)
  qed
  have nonempty: "replicate z CHR ''1'' @ ds \<noteq> []"
  proof (cases "n = 0")
    case True
    then have "\<forall>b\<in>set bs. b = 0" by (simp add: n_def be_value_zero_iff)
    then have "takeWhile (\<lambda>b. b = 0) bs = bs" by (simp add: takeWhile_eq_all_conv)
    then have "z = length bs" unfolding z_def by (rule arg_cong)
    with assms show ?thesis by simp
  next
    case False
    then show ?thesis using b58_digits_leading[of n] by (simp add: ds_def)
  qed
  have valid: "\<not> list_ex (\<lambda>c. c \<notin> set b58_alphabet) (replicate z CHR ''1'' @ ds)"
  proof -
    have "CHR ''1'' \<in> set b58_alphabet" by (simp add: b58_alphabet_def)
    moreover have "set ds \<subseteq> set b58_alphabet" unfolding ds_def by (rule b58_digits_alphabet)
    ultimately show ?thesis by (auto simp: list_ex_iff)
  qed
  have ones: "takeWhile (\<lambda>c. c = CHR ''1'') (replicate z CHR ''1'' @ ds) = replicate z CHR ''1''"
    using lead by (rule takeWhile_replicate_hd)
  have val: "b58_value (replicate z CHR ''1'' @ ds) = n"
    by (simp add: b58_value_ones ds_def b58_value_digits)
  have "base58_Decode (replicate z CHR ''1'' @ ds) = Inr (replicate z 0 @ nat_bytes n)"
    unfolding base58_Decode_def using nonempty valid by (simp only: ones val if_False length_replicate)
  also have "nat_bytes n = dropWhile (\<lambda>b. b = 0) bs"
    unfolding n_def by (rule nat_bytes_be_value)
  finally show ?thesis using split enc by simp
qed

lemma base58_Encode_seps:
  "CHR ''.'' \<notin> set (base58_Encode bs) \<and> CHR ''@'' \<notin> set (base58_Encode bs)"
proof -
  have "set (base58_Encode bs) \<subseteq> set b58_alphabet"
  proof -
    have "CHR ''1'' \<in> set b58_alphabet" by (simp add: b58_alphabet_def)
    then show ?thesis using b58_digits_alphabet[of "be_value bs"]
      by (auto simp: base58_Encode_def)
  qed
  with b58_alphabet_seps show ?thesis by blast
qed

theorem recipient_roundtrip_witness:
  "length key1 = 32 \<and> length key2 = 32 \<and> length key3 = 32
   \<and> base58_Decode (base58_Encode key1) = Inr key1
   \<and> base58_Decode (base58_Encode key2) = Inr key2
   \<and> base58_Decode (base58_Encode key3) = Inr key3
   \<and> CHR ''.'' \<notin> set (base58_Encode key1) \<and> CHR ''@'' \<notin> set (base58_Encode key1)
   \<and> CHR ''.'' \<notin> set (base58_Encode key2) \<and> CHR ''@'' \<notin> set (base58_Encode key2)
   \<and> CHR ''@'' \<notin> set (base58_Encode key3)
   \<and> (\<exists>r. ParseRecipient base58_Decode
            (base58_Encode key1 @ [CHR ''.''] @ base58_Encode key2 @ [CHR ''@''] @ base58_Encode key3) = Inr r
        \<and> Recipient_String base58_Encode r
            = base58_Encode key1 @ [CHR ''.''] @ base58_Encode key2 @ [CHR ''@''] @ base58_Encode key3
        \<and> Bytes r = key1 @ key2 @ key3 \<and> length (Bytes r) = 96)"
proof -
  have l: "length key1 = 32" "length key2 = 32" "length key3 = 32"
    by (simp_all add: key1_def key2_def key3_def)
  have d: "base58_Decode (base58_Encode key1) = Inr key1" "base58_Decode (base58_Encode key2) = Inr key2"
    "base58_Decode (base58_Encode key3) = Inr key3"
    by (rule base58_roundtrip, simp add: key1_def key2_def key3_def)+
  have s: "CHR ''.'' \<notin> set (base58_Encode key1)" "CHR ''@'' \<notin> set (base58_Encode key1)"
    "CHR ''.'' \<notin> set (base58_Encode key2)" "CHR ''@'' \<notin> set (base58_Encode key2)"
    "CHR ''@'' \<notin> set (base58_Encode key3)"
    using base58_Encode_seps by blast+
  show ?thesis
    using l d s recipient_roundtrip[OF l d s] by blast
qed

section \<open>Properties of the transport indices\<close>

lemma armed_New: "SetConnectionMessageReceived New = Some (New\<lparr>nextExpectedNonce := 1\<rparr>)"
  by (simp add: SetConnectionMessageReceived_def New_def)

lemma step_disjoint:
  assumes "disjoint_indices t" and "fresh_id t e"
  shows "disjoint_indices (step t e)"
proof (cases e)
  case (EvDial connID recipient)
  with assms show ?thesis
    by (auto simp: disjoint_indices_def Dial_register_def Let_def)
next
  case (EvRemovePendingDial connID)
  with assms show ?thesis
    by (auto simp: disjoint_indices_def removePendingDial_def split: option.splits)
next
  case (EvConnectionRequest connMsg newConnOk sendOk)
  with assms show ?thesis
    by (auto simp: disjoint_indices_def handleConnectionRequest_def Let_def armed_New
          removeConnection_def split: option.splits if_splits)
next
  case (EvConnectionResponse connMsg newConnOk delivered)
  with assms show ?thesis
    by (auto simp: disjoint_indices_def handleConnectionResponse_def Let_def armed_New
          removeConnection_def split: option.splits if_splits)
next
  case (EvConnClose connID)
  with assms show ?thesis
    by (auto simp: disjoint_indices_def removeConnection_def)
next
  case EvTransportClose
  then show ?thesis by (simp add: disjoint_indices_def Transport_Close_def)
qed

lemma run_disjoint:
  "disjoint_indices t \<Longrightarrow> fresh_run t es \<Longrightarrow> disjoint_indices (run t es)"
proof (induction es arbitrary: t)
  case Nil
  then show ?case by (simp add: run_def)
next
  case (Cons e es)
  then have "disjoint_indices (step t e)" and "fresh_run (step t e) es"
    by (simp_all add: step_disjoint)
  with Cons.IH have "disjoint_indices (run (step t e) es)" by blast
  then show ?case by (simp add: run_def)
qed

text \<open>
  Claim C5 (pending dials and live connections), as amended. In every state that the transport
  reaches from its initial state by dial registrations, removals of pending dials, handled
  connection requests and responses, connection closes and transport closes, each step atomic,
  where every dial registers an identifier that is not the identifier of a live connection and
  every handled request carries an identifier that is not the identifier of a pending dial, no
  key belongs to both the pending-dials map and the live-connections map.
\<close>

theorem pending_and_live_disjoint:
  assumes "fresh_run newTransport es"
  shows "dom (pendingDials (run newTransport es)) \<inter> dom (connections (run newTransport es)) = {}"
proof -
  have "disjoint_indices newTransport"
    by (simp add: disjoint_indices_def newTransport_def)
  from run_disjoint[OF this assms] show ?thesis
    by (simp add: disjoint_indices_def)
qed

theorem pending_and_live_disjoint_witness:
  "fresh_run newTransport
     [EvDial example_id example_recipient, EvConnectionResponse example_request_cm True True,
      EvConnClose example_id, EvDial example_id example_recipient]
   \<and> dom (pendingDials (run newTransport
        [EvDial example_id example_recipient, EvConnectionResponse example_request_cm True True,
         EvConnClose example_id, EvDial example_id example_recipient]))
     \<inter> dom (connections (run newTransport
        [EvDial example_id example_recipient, EvConnectionResponse example_request_cm True True,
         EvConnClose example_id, EvDial example_id example_recipient])) = {}"
proof -
  have h: "fresh_run newTransport
     [EvDial example_id example_recipient, EvConnectionResponse example_request_cm True True,
      EvConnClose example_id, EvDial example_id example_recipient]"
    by (simp add: newTransport_def Dial_register_def handleConnectionResponse_def Let_def armed_New
          removeConnection_def example_request_cm_def)
  show ?thesis using h pending_and_live_disjoint[OF h] by blast
qed

text \<open>
  The claim as stated fails when identifiers are arbitrary: after a dial has registered an
  identifier, a connection request that carries the same identifier is accepted, and the
  identifier is then a key of both maps.
\<close>

theorem pending_and_live_counterexample:
  "connKey example_id \<in> dom (pendingDials (run newTransport
        [EvDial example_id example_recipient, EvConnectionRequest example_request_cm True True]))
   \<and> connKey example_id \<in> dom (connections (run newTransport
        [EvDial example_id example_recipient, EvConnectionRequest example_request_cm True True]))"
  by (simp add: run_def newTransport_def Dial_register_def handleConnectionRequest_def Let_def armed_New
        example_request_cm_def)

section \<open>Properties of substreams\<close>

lemma Read_empty_chunk:
  assumes "1 \<le> n" and "buffer s = []" and "inbound s = [] # rest"
  shows "Read s n = (ReadBytes [], s\<lparr>inbound := rest\<rparr>)"
  using assms by (simp add: Read_def Let_def)

lemma pushData_open:
  assumes "\<not> remoteClosed s" and "\<not> localClosed s" and "\<not> inbound_closed s"
    and "length (inbound s) < inbound_capacity"
  shows "pushData s False pick data = Returns (s\<lparr>inbound := inbound s @ [data]\<rparr>)"
proof -
  have "go_copy (make_bytes (length data)) 0 data = data"
    by (simp add: go_copy_def make_bytes_def)
  with assms show ?thesis by (simp add: pushData_def Let_def)
qed

text \<open>
  Claim C10 (empty Data frame). When a Data frame with an empty payload is delivered to an open
  substream, the empty chunk is appended to its inbound queue. A \<^verbatim>\<open>Read\<close> with a buffer of size
  \<open>n \<ge> 1\<close> and an empty residual buffer that finds this chunk at the head of the queue takes it
  and returns 0 bytes with a nil error: it neither waits nor reports end-of-stream, and the
  stream stays open. In particular this is the next \<^verbatim>\<open>Read\<close> when the queue was empty.
\<close>

theorem empty_data_read:
  assumes "streams c (substreamKey sid) = Some r" and "r \<noteq> 0"
    and "\<not> remoteClosed (substreams c r)" and "\<not> localClosed (substreams c r)"
    and "\<not> inbound_closed (substreams c r)" and "\<not> c_closed c"
    and "length (inbound (substreams c r)) < inbound_capacity"
    and "1 \<le> n" and "buffer s = []" and "inbound s = [] # rest"
  shows "handleData c sid [] pick
       = Returns (c\<lparr>substreams := (substreams c)
            (r := (substreams c r)\<lparr>inbound := inbound (substreams c r) @ [[]]\<rparr>)\<rparr>)
     \<and> Read s n = (ReadBytes [], s\<lparr>inbound := rest\<rparr>)
     \<and> (inbound (substreams c r) = [] \<and> buffer (substreams c r) = [] \<longrightarrow>
          Read ((substreams c r)\<lparr>inbound := inbound (substreams c r) @ [[]]\<rparr>) n
            = (ReadBytes [], substreams c r))"
proof -
  have p: "pushData (substreams c r) (c_closed c) pick []
      = Returns ((substreams c r)\<lparr>inbound := inbound (substreams c r) @ [[]]\<rparr>)"
    using pushData_open[OF assms(3,4,5,7), of pick "[]"] assms(6) by simp
  have h: "handleData c sid [] pick
       = Returns (c\<lparr>substreams := (substreams c)
            (r := (substreams c r)\<lparr>inbound := inbound (substreams c r) @ [[]]\<rparr>)\<rparr>)"
    using assms(1,2) by (simp add: handleData_def p)
  have r1: "Read s n = (ReadBytes [], s\<lparr>inbound := rest\<rparr>)"
    using assms(8,9,10) by (rule Read_empty_chunk)
  have r2: "Read ((substreams c r)\<lparr>inbound := inbound (substreams c r) @ [[]]\<rparr>) n
            = (ReadBytes [], substreams c r)"
    if "inbound (substreams c r) = []" and "buffer (substreams c r) = []"
    using that assms(8) by (simp add: Read_def Let_def)
  show ?thesis using h r1 r2 by blast
qed

theorem empty_data_read_witness:
  "handleData example_conn example_id [] False
       = Returns (example_conn\<lparr>substreams := (substreams example_conn)
            (1 := example_stream\<lparr>inbound := [[]]\<rparr>)\<rparr>)
   \<and> Read (example_stream\<lparr>inbound := [[]]\<rparr>) 4 = (ReadBytes [], example_stream)"
proof -
  have a: "streams example_conn (substreamKey example_id) = Some 1" "(1::nat) \<noteq> 0"
    "\<not> remoteClosed (substreams example_conn 1)" "\<not> localClosed (substreams example_conn 1)"
    "\<not> inbound_closed (substreams example_conn 1)" "\<not> c_closed example_conn"
    "length (inbound (substreams example_conn 1)) < inbound_capacity"
    "1 \<le> (4::nat)" "buffer (example_stream\<lparr>inbound := [[]]\<rparr>) = []"
    "inbound (example_stream\<lparr>inbound := [[]]\<rparr>) = [] # []"
    by (simp_all add: example_conn_def example_stream_def newSubstream_def inbound_capacity_def)
  have e: "inbound (substreams example_conn 1) = []" "buffer (substreams example_conn 1) = []"
    "substreams example_conn 1 = example_stream"
    by (simp_all add: example_conn_def example_stream_def newSubstream_def)
  show ?thesis
    using empty_data_read[OF a, of False] e by simp
qed

lemma Write_closed:
  "localClosed (substreams c r) \<Longrightarrow> Write c r p pick = Returns ((0, Some StreamClosed), c)"
  by (simp add: Write_def)

lemma Write_copy:
  "go_copy (make_bytes (length bs)) 0 bs = bs"
  by (simp add: go_copy_def make_bytes_def)

lemma Write_open:
  assumes "\<not> localClosed (substreams c r)" and "p \<noteq> next_addr c"
  shows "Write c r p pick =
     (let c2 = c\<lparr>heap := (heap c)(next_addr c := heap c p), next_addr := next_addr c + 1,
                  c_nonce := c_nonce c + 1\<rparr>;
          room = (length (mixnetOutbound c) < mixnetOutbound_cap c)
      in if ctx_done c \<and> (\<not> room \<or> pick) then Returns ((0, Some Canceled), c2)
         else if room then
           Returns ((length (heap c p), None),
                    c2\<lparr>mixnetOutbound := mixnetOutbound c @ [data_frame c r (next_addr c)]\<rparr>)
         else Blocks ((0, None), c2))"
  using assms
  by (simp add: Write_def sendData_def sendSubstreamMessage_def sendMixnetMessage_def Let_def
        Write_copy data_frame_def)

text \<open>
  Claim C9 (write semantics). \<^verbatim>\<open>Write(p)\<close> on a substream whose local-closed flag is set returns
  \<open>(0, StreamClosed)\<close> and changes nothing. On a substream that is not locally closed, a
  \<^verbatim>\<open>Write(p)\<close> that returns without error returns \<^verbatim>\<open>len(p)\<close>; the Data frame it has put on the
  outbound channel carries a newly made array, different from the caller's, that holds the
  bytes of \<open>p\<close>, and the caller's array is as it was. When the transport is not cancelled and the
  outbound channel has room, the write returns without error.
\<close>

theorem write_semantics:
  assumes "p < next_addr c"
  shows "(localClosed (substreams c r) \<longrightarrow> Write c r p pick = Returns ((0, Some StreamClosed), c))
     \<and> (\<not> localClosed (substreams c r) \<longrightarrow>
          (\<forall>n c'. Write c r p pick = Returns ((n, None), c') \<longrightarrow>
             n = length (heap c p)
             \<and> mixnetOutbound c' = mixnetOutbound c @ [data_frame c r (next_addr c)]
             \<and> next_addr c \<noteq> p
             \<and> heap c' (next_addr c) = heap c p
             \<and> heap c' p = heap c p))
     \<and> (\<not> localClosed (substreams c r) \<and> \<not> ctx_done c
          \<and> length (mixnetOutbound c) < mixnetOutbound_cap c \<longrightarrow>
          (\<exists>c'. Write c r p pick = Returns ((length (heap c p), None), c')))"
proof -
  have ne: "p \<noteq> next_addr c" using assms by simp
  have a: "localClosed (substreams c r) \<longrightarrow> Write c r p pick = Returns ((0, Some StreamClosed), c)"
    by (simp add: Write_closed)
  have b: "n = length (heap c p)
             \<and> mixnetOutbound c' = mixnetOutbound c @ [data_frame c r (next_addr c)]
             \<and> next_addr c \<noteq> p
             \<and> heap c' (next_addr c) = heap c p
             \<and> heap c' p = heap c p"
    if "\<not> localClosed (substreams c r)" and "Write c r p pick = Returns ((n, None), c')" for n c'
    using that(2) ne unfolding Write_open[OF that(1) ne] Let_def
    by (auto split: if_splits)
  have d: "\<exists>c'. Write c r p pick = Returns ((length (heap c p), None), c')"
    if "\<not> localClosed (substreams c r)" and "\<not> ctx_done c"
      and "length (mixnetOutbound c) < mixnetOutbound_cap c"
    unfolding Write_open[OF that(1) ne] Let_def using that(2,3) by simp
  show ?thesis using a b d by blast
qed

theorem write_semantics_witness:
  "(1::nat) < next_addr example_conn_closed_stream
   \<and> localClosed (substreams example_conn_closed_stream 1)
   \<and> Write example_conn_closed_stream 1 1 False
        = Returns ((0, Some StreamClosed), example_conn_closed_stream)
   \<and> (1::nat) < next_addr example_conn
   \<and> \<not> localClosed (substreams example_conn 1)
   \<and> Write example_conn 1 1 False
        = Returns ((2, None),
            example_conn\<lparr>heap := (heap example_conn)(2 := [0x68, 0x69]), next_addr := 3, c_nonce := 1,
               mixnetOutbound := [data_frame example_conn 1 2]\<rparr>)
   \<and> length (heap example_conn 1) = 2
   \<and> heap (example_conn\<lparr>heap := (heap example_conn)(2 := [0x68, 0x69]), next_addr := 3, c_nonce := 1,
               mixnetOutbound := [data_frame example_conn 1 2]\<rparr>) 2 = heap example_conn 1"
proof -
  have h1: "(1::nat) < next_addr example_conn_closed_stream"
    by (simp add: example_conn_closed_stream_def example_conn_def)
  have l1: "localClosed (substreams example_conn_closed_stream 1)"
    by (simp add: example_conn_closed_stream_def)
  have h2: "(1::nat) < next_addr example_conn"
    by (simp add: example_conn_def)
  have l2: "\<not> localClosed (substreams example_conn 1)"
    by (simp add: example_conn_def example_stream_def newSubstream_def)
  have w: "Write example_conn 1 1 False
        = Returns ((2, None),
            example_conn\<lparr>heap := (heap example_conn)(2 := [0x68, 0x69]), next_addr := 3, c_nonce := 1,
               mixnetOutbound := [data_frame example_conn 1 2]\<rparr>)"
    unfolding Write_def Let_def
    by (simp add: sendData_def sendSubstreamMessage_def sendMixnetMessage_def Let_def Write_copy
        data_frame_def l2) (simp add: example_conn_def example_stream_def newSubstream_def)
  have k: "length (heap example_conn 1) = 2" by (simp add: example_conn_def)
  from write_semantics[OF h1, of 1 False] l1
  have c1: "Write example_conn_closed_stream 1 1 False
        = Returns ((0, Some StreamClosed), example_conn_closed_stream)" by blast
  from write_semantics[OF h2, of 1 False] l2 w
  have c2: "heap (example_conn\<lparr>heap := (heap example_conn)(2 := [0x68, 0x69]), next_addr := 3, c_nonce := 1,
               mixnetOutbound := [data_frame example_conn 1 2]\<rparr>) (next_addr example_conn) = heap example_conn 1"
    by blast
  have "next_addr example_conn = 2" by (simp add: example_conn_def)
  with c2 have c2': "heap (example_conn\<lparr>heap := (heap example_conn)(2 := [0x68, 0x69]), next_addr := 3, c_nonce := 1,
               mixnetOutbound := [data_frame example_conn 1 2]\<rparr>) 2 = heap example_conn 1"
    by simp
  show ?thesis using h1 l1 c1 h2 l2 w k c2' by blast
qed

lemma closeWithControl_noop:
  "localClosed (substreams c r) \<Longrightarrow> closeWithControl c r sendCtl pick = Returns c"
  by (simp add: closeWithControl_def)

lemma removeStream_shape:
  "snd (removeStream c sid)
     = c\<lparr>streams := (streams c)(substreamKey sid := None),
          pendingOutbound := (pendingOutbound c)(substreamKey sid := None)\<rparr>"
proof (cases "pendingOutbound c (substreamKey sid)")
  case None
  then have "(pendingOutbound c)(substreamKey sid := None) = pendingOutbound c"
    by (simp add: fun_upd_idem)
  with None show ?thesis by (simp add: removeStream_def Let_def)
next
  case (Some w)
  then show ?thesis by (simp add: removeStream_def Let_def)
qed

lemma sendControl_close:
  "sendControl c (ss_id (substreams c r)) SubstreamMessageClose pick
     = (if ctx_done c \<and> (\<not> length (mixnetOutbound c) < mixnetOutbound_cap c \<or> pick)
        then Returns (Some Canceled, c\<lparr>c_nonce := c_nonce c + 1\<rparr>)
        else if length (mixnetOutbound c) < mixnetOutbound_cap c
        then Returns (None, c\<lparr>c_nonce := c_nonce c + 1,
                                mixnetOutbound := mixnetOutbound c @ [close_frame c r]\<rparr>)
        else Blocks (None, c\<lparr>c_nonce := c_nonce c + 1\<rparr>))"
  by (simp add: sendControl_def sendSubstreamMessage_def sendMixnetMessage_def Let_def close_frame_def)

lemma closeLocalStream_cases:
  assumes "r \<noteq> 0" and "\<not> c_closed c"
  shows "closeLocalStream c r pick
     = (if ctx_done c \<and> (\<not> length (mixnetOutbound c) < mixnetOutbound_cap c \<or> pick)
        then Returns (c\<lparr>c_nonce := c_nonce c + 1,
                           streams := (streams c)(substreamKey (ss_id (substreams c r)) := None),
                           pendingOutbound := (pendingOutbound c)(substreamKey (ss_id (substreams c r)) := None)\<rparr>)
        else if length (mixnetOutbound c) < mixnetOutbound_cap c
        then Returns (c\<lparr>c_nonce := c_nonce c + 1,
                           mixnetOutbound := mixnetOutbound c @ [close_frame c r],
                           streams := (streams c)(substreamKey (ss_id (substreams c r)) := None),
                           pendingOutbound := (pendingOutbound c)(substreamKey (ss_id (substreams c r)) := None)\<rparr>)
        else Blocks (c\<lparr>c_nonce := c_nonce c + 1\<rparr>))"
  unfolding closeLocalStream_def sendControl_close
  using assms by (simp add: removeStream_shape)

lemma closeWithControl_ctl:
  assumes "\<not> localClosed (substreams c r)" and "r \<noteq> 0" and "\<not> c_closed c"
  shows "closeWithControl c r True pick
     = (if ctx_done c \<and> (\<not> length (mixnetOutbound c) < mixnetOutbound_cap c \<or> pick)
        then Returns (close_unsent c r)
        else if length (mixnetOutbound c) < mixnetOutbound_cap c
        then Returns (close_sent c r)
        else Blocks (c\<lparr>substreams := (substreams c)(r := (substreams c r)\<lparr>localClosed := True\<rparr>),
                        c_nonce := c_nonce c + 1\<rparr>))"
proof -
  define c1 where "c1 = c\<lparr>substreams := (substreams c)(r := (substreams c r)\<lparr>localClosed := True\<rparr>)\<rparr>"
  have o: "\<not> c_closed c1" using assms(3) by (simp add: c1_def)
  have f: "close_frame c1 r = close_frame c r" by (simp add: close_frame_def c1_def)
  have k: "ss_id (substreams c1 r) = ss_id (substreams c r)" by (simp add: c1_def)
  have e: "closeWithControl c r True pick
      = (case closeLocalStream c1 r pick of
           Blocks c2 \<Rightarrow> Blocks c2
         | Returns c2 \<Rightarrow>
             Returns (c2\<lparr>substreams := (substreams c2)
                (r := (if channelOnce ((substreams c2 r)\<lparr>remoteClosed := True\<rparr>)
                       then (substreams c2 r)\<lparr>remoteClosed := True\<rparr>
                       else (substreams c2 r)\<lparr>remoteClosed := True, channelOnce := True,
                              inbound_closed := True\<rparr>))\<rparr>))"
    using assms(1) by (simp add: closeWithControl_def Let_def c1_def split: outcome.split)
  show ?thesis
    unfolding e closeLocalStream_cases[OF assms(2) o] f k
    by (simp add: c1_def close_sent_def close_unsent_def closed_locally_def)
qed

lemma closeWithControl_send:
  assumes "\<not> localClosed (substreams c r)" and "r \<noteq> 0" and "\<not> c_closed c"
    and "length (mixnetOutbound c) < mixnetOutbound_cap c" and "\<not> ctx_done c \<or> \<not> pick"
  shows "closeWithControl c r True pick = Returns (close_sent c r)"
  unfolding closeWithControl_ctl[OF assms(1,2,3)] using assms(4,5) by auto

lemma closeWithControl_cancelled:
  assumes "\<not> localClosed (substreams c r)" and "r \<noteq> 0" and "\<not> c_closed c"
    and "ctx_done c" and "\<not> length (mixnetOutbound c) < mixnetOutbound_cap c \<or> pick"
  shows "closeWithControl c r True pick = Returns (close_unsent c r)"
  unfolding closeWithControl_ctl[OF assms(1,2,3)] using assms(4,5) by auto

lemma closeWithControl_waits:
  assumes "\<not> localClosed (substreams c r)" and "r \<noteq> 0" and "\<not> c_closed c"
    and "\<not> ctx_done c" and "\<not> length (mixnetOutbound c) < mixnetOutbound_cap c"
  shows "closeWithControl c r True pick
     = Blocks (c\<lparr>substreams := (substreams c)(r := (substreams c r)\<lparr>localClosed := True\<rparr>),
                 c_nonce := c_nonce c + 1\<rparr>)"
  unfolding closeWithControl_ctl[OF assms(1,2,3)] using assms(4,5) by auto

lemma closeWithControl_silent:
  assumes "\<not> localClosed (substreams c r)" and "\<not> sendCtl \<or> c_closed c \<or> r = 0"
  shows "closeWithControl c r sendCtl pick
     = Returns (c\<lparr>substreams := (substreams c)(r := closed_locally (substreams c r))\<rparr>)"
proof -
  have "(if sendCtl then closeLocalStream
           (c\<lparr>substreams := (substreams c)(r := (substreams c r)\<lparr>localClosed := True\<rparr>)\<rparr>) r pick
         else Returns (c\<lparr>substreams := (substreams c)(r := (substreams c r)\<lparr>localClosed := True\<rparr>)\<rparr>))
      = Returns (c\<lparr>substreams := (substreams c)(r := (substreams c r)\<lparr>localClosed := True\<rparr>)\<rparr>)"
    using assms(2) by (auto simp: closeLocalStream_def)
  then show ?thesis
    using assms(1) by (simp add: closeWithControl_def Let_def closed_locally_def)
qed

lemma closeWithControl_returns:
  assumes "\<not> localClosed (substreams c r)" and "closeWithControl c r sendCtl pick = Returns c'"
  shows "substreams c' r = closed_locally (substreams c r)
     \<and> (mixnetOutbound c' = mixnetOutbound c \<or> mixnetOutbound c' = mixnetOutbound c @ [close_frame c r])"
proof (cases "\<not> sendCtl \<or> c_closed c \<or> r = 0")
  case True
  from closeWithControl_silent[OF assms(1) True, of pick] assms(2)
  have "c' = c\<lparr>substreams := (substreams c)(r := closed_locally (substreams c r))\<rparr>" by simp
  then show ?thesis by simp
next
  case False
  then have s: "sendCtl" and o: "\<not> c_closed c" and r: "r \<noteq> 0" by simp_all
  show ?thesis
  proof (cases "ctx_done c \<and> (\<not> length (mixnetOutbound c) < mixnetOutbound_cap c \<or> pick)")
    case True
    then have "closeWithControl c r True pick = Returns (close_unsent c r)"
      using closeWithControl_cancelled[OF assms(1) r o, of pick] by blast
    with assms(2) s have "c' = close_unsent c r" by simp
    then show ?thesis by (simp add: close_unsent_def)
  next
    case nc: False
    show ?thesis
    proof (cases "length (mixnetOutbound c) < mixnetOutbound_cap c")
      case True
      with nc have "\<not> ctx_done c \<or> \<not> pick" by blast
      from closeWithControl_send[OF assms(1) r o True this] assms(2) s
      have "c' = close_sent c r" by simp
      then show ?thesis by (simp add: close_sent_def close_unsent_def)
    next
      case False
      with nc have "\<not> ctx_done c" by blast
      from closeWithControl_waits[OF assms(1) r o this False, of pick] assms(2) s
      show ?thesis by simp
    qed
  qed
qed

lemma pushData_closed:
  "localClosed s \<or> remoteClosed s \<Longrightarrow> pushData s connClosed pick data = Returns s"
  by (auto simp: pushData_def)

lemma Read_closed:
  assumes "inbound_closed s" and "0 < n"
  shows "fst (Read s n) =
     (if buffer s \<noteq> [] then ReadBytes (take n (buffer s))
      else (case inbound s of [] \<Rightarrow> ReadEOF | d # ds \<Rightarrow> ReadBytes (take n d)))"
  using assms by (auto simp: Read_def Read_copy_def Let_def split: list.splits)

text \<open>
  Claim C8 (local close), as amended. Closing a substream locally is a no-op when the
  local-closed flag is already set. Otherwise it sets the local-closed flag. Then, when a
  control frame is asked for and the connection is open, it advances the nonce counter and
  offers a Close frame to the transport: the frame is sent when the outbound channel has room
  and the cancelled context is not picked; nothing is sent when the transport context is
  cancelled and is picked or the channel is full; in both cases the substream is removed from
  the index of the connection; while the channel is full and the context is not cancelled the
  call waits there, with only the local-closed flag set. When no control frame is asked for or
  the connection is closed, nothing is sent and the index is left as it is. Whenever the call
  returns, it has set the remote-closed flag and closed the inbound queue unless the queue
  had been closed before, so the queue is closed exactly once, and at most one Close frame has
  been sent. After a local close no chunk is added to the inbound queue; a \<^verbatim>\<open>Read\<close> on a closed
  queue never waits: it returns the bytes buffered before the close, the residual buffer first
  and then the queued chunks, and end-of-stream once both are empty.
\<close>

theorem local_close:
  "(localClosed (substreams c r) \<longrightarrow> closeWithControl c r sendCtl pick = Returns c)
   \<and> (\<not> localClosed (substreams c r) \<and> r \<noteq> 0 \<and> \<not> c_closed c
        \<and> length (mixnetOutbound c) < mixnetOutbound_cap c \<and> (\<not> ctx_done c \<or> \<not> pick) \<longrightarrow>
        Substream_Close c r pick = Returns (close_sent c r))
   \<and> (\<not> localClosed (substreams c r) \<and> r \<noteq> 0 \<and> \<not> c_closed c
        \<and> ctx_done c \<and> (\<not> length (mixnetOutbound c) < mixnetOutbound_cap c \<or> pick) \<longrightarrow>
        Substream_Close c r pick = Returns (close_unsent c r))
   \<and> (\<not> localClosed (substreams c r) \<and> r \<noteq> 0 \<and> \<not> c_closed c
        \<and> \<not> ctx_done c \<and> \<not> length (mixnetOutbound c) < mixnetOutbound_cap c \<longrightarrow>
        Substream_Close c r pick
          = Blocks (c\<lparr>substreams := (substreams c)(r := (substreams c r)\<lparr>localClosed := True\<rparr>),
                      c_nonce := c_nonce c + 1\<rparr>))
   \<and> (\<not> localClosed (substreams c r) \<and> (\<not> sendCtl \<or> c_closed c \<or> r = 0) \<longrightarrow>
        closeWithControl c r sendCtl pick
          = Returns (c\<lparr>substreams := (substreams c)(r := closed_locally (substreams c r))\<rparr>))
   \<and> (\<not> localClosed (substreams c r) \<and> closeWithControl c r sendCtl pick = Returns c' \<longrightarrow>
        substreams c' r = closed_locally (substreams c r)
        \<and> (mixnetOutbound c' = mixnetOutbound c
            \<or> mixnetOutbound c' = mixnetOutbound c @ [close_frame c r]))
   \<and> localClosed (closed_locally s) \<and> remoteClosed (closed_locally s)
   \<and> inbound_closed (closed_locally s) = (inbound_closed s \<or> \<not> channelOnce s)
   \<and> inbound (closed_locally s) = inbound s \<and> buffer (closed_locally s) = buffer s
   \<and> remoteClose (closed_locally s) = closed_locally s
   \<and> pushData (closed_locally s) connClosed pick data = Returns (closed_locally s)
   \<and> (inbound_closed s \<and> 0 < n \<longrightarrow>
        fst (Read s n) =
          (if buffer s \<noteq> [] then ReadBytes (take n (buffer s))
           else (case inbound s of [] \<Rightarrow> ReadEOF | d # ds \<Rightarrow> ReadBytes (take n d))))"
proof -
  have a: "localClosed (closed_locally s)" "remoteClosed (closed_locally s)"
    "inbound_closed (closed_locally s) = (inbound_closed s \<or> \<not> channelOnce s)"
    "inbound (closed_locally s) = inbound s" "buffer (closed_locally s) = buffer s"
    by (simp_all add: closed_locally_def)
  have b: "remoteClose (closed_locally s) = closed_locally s"
    using a(2) by (simp add: remoteClose_def)
  have d: "pushData (closed_locally s) connClosed pick data = Returns (closed_locally s)"
    using a(1) by (simp add: pushData_closed)
  have c1: "localClosed (substreams c r) \<longrightarrow> closeWithControl c r sendCtl pick = Returns c"
    by (simp add: closeWithControl_noop)
  have c2: "\<not> localClosed (substreams c r) \<and> r \<noteq> 0 \<and> \<not> c_closed c
        \<and> length (mixnetOutbound c) < mixnetOutbound_cap c \<and> (\<not> ctx_done c \<or> \<not> pick) \<longrightarrow>
        Substream_Close c r pick = Returns (close_sent c r)"
    unfolding Substream_Close_def using closeWithControl_send[of c r pick] by blast
  have c3: "\<not> localClosed (substreams c r) \<and> r \<noteq> 0 \<and> \<not> c_closed c
        \<and> ctx_done c \<and> (\<not> length (mixnetOutbound c) < mixnetOutbound_cap c \<or> pick) \<longrightarrow>
        Substream_Close c r pick = Returns (close_unsent c r)"
    unfolding Substream_Close_def using closeWithControl_cancelled[of c r pick] by blast
  have c4: "\<not> localClosed (substreams c r) \<and> r \<noteq> 0 \<and> \<not> c_closed c
        \<and> \<not> ctx_done c \<and> \<not> length (mixnetOutbound c) < mixnetOutbound_cap c \<longrightarrow>
        Substream_Close c r pick
          = Blocks (c\<lparr>substreams := (substreams c)(r := (substreams c r)\<lparr>localClosed := True\<rparr>),
                      c_nonce := c_nonce c + 1\<rparr>)"
    unfolding Substream_Close_def using closeWithControl_waits[of c r pick] by blast
  have c5: "\<not> localClosed (substreams c r) \<and> (\<not> sendCtl \<or> c_closed c \<or> r = 0) \<longrightarrow>
        closeWithControl c r sendCtl pick
          = Returns (c\<lparr>substreams := (substreams c)(r := closed_locally (substreams c r))\<rparr>)"
    using closeWithControl_silent[of c r sendCtl pick] by blast
  have c6: "\<not> localClosed (substreams c r) \<and> closeWithControl c r sendCtl pick = Returns c' \<longrightarrow>
        substreams c' r = closed_locally (substreams c r)
        \<and> (mixnetOutbound c' = mixnetOutbound c
            \<or> mixnetOutbound c' = mixnetOutbound c @ [close_frame c r])"
    using closeWithControl_returns[of c r sendCtl pick c'] by blast
  have c7: "inbound_closed s \<and> 0 < n \<longrightarrow>
        fst (Read s n) =
          (if buffer s \<noteq> [] then ReadBytes (take n (buffer s))
           else (case inbound s of [] \<Rightarrow> ReadEOF | d # ds \<Rightarrow> ReadBytes (take n d)))"
    using Read_closed[of s n] by blast
  show ?thesis
    by (intro conjI c1 c2 c3 c4 c5 c6 a b d c7)
qed

theorem local_close_witness:
  "localClosed (substreams example_conn_closed_stream 1)
   \<and> closeWithControl example_conn_closed_stream 1 True False = Returns example_conn_closed_stream
   \<and> (\<not> localClosed (substreams example_conn_buffered 1) \<and> (1::nat) \<noteq> 0
        \<and> \<not> c_closed example_conn_buffered
        \<and> length (mixnetOutbound example_conn_buffered) < mixnetOutbound_cap example_conn_buffered
        \<and> \<not> ctx_done example_conn_buffered)
   \<and> Substream_Close example_conn_buffered 1 False = Returns (close_sent example_conn_buffered 1)
   \<and> mixnetOutbound (close_sent example_conn_buffered 1) = [close_frame example_conn_buffered 1]
   \<and> (\<not> localClosed (substreams example_conn_cancelled 1) \<and> (1::nat) \<noteq> 0
        \<and> \<not> c_closed example_conn_cancelled \<and> ctx_done example_conn_cancelled)
   \<and> Substream_Close example_conn_cancelled 1 True = Returns (close_unsent example_conn_cancelled 1)
   \<and> mixnetOutbound (close_unsent example_conn_cancelled 1) = []
   \<and> (\<not> localClosed (substreams example_conn_full 1) \<and> (1::nat) \<noteq> 0
        \<and> \<not> c_closed example_conn_full \<and> \<not> ctx_done example_conn_full
        \<and> \<not> length (mixnetOutbound example_conn_full) < mixnetOutbound_cap example_conn_full)
   \<and> Substream_Close example_conn_full 1 False
        = Blocks (example_conn_full\<lparr>substreams := (substreams example_conn_full)
                    (1 := (substreams example_conn_full 1)\<lparr>localClosed := True\<rparr>),
                  c_nonce := c_nonce example_conn_full + 1\<rparr>)
   \<and> closeWithControl example_conn_buffered 1 False False
        = Returns (example_conn_buffered\<lparr>
            substreams := (substreams example_conn_buffered)
               (1 := closed_locally (substreams example_conn_buffered 1))\<rparr>)
   \<and> substreams (close_sent example_conn_buffered 1) 1
        = closed_locally (substreams example_conn_buffered 1)
   \<and> inbound_closed (closed_locally (substreams example_conn_buffered 1)) \<and> (0::nat) < 2
   \<and> fst (Read (closed_locally (substreams example_conn_buffered 1)) 2) = ReadBytes [1, 2]"
proof -
  note defs = example_conn_buffered_def example_conn_cancelled_def example_conn_full_def
    example_conn_def example_stream_def newSubstream_def
  have l: "localClosed (substreams example_conn_closed_stream 1)"
    by (simp add: example_conn_closed_stream_def)
  have h2: "\<not> localClosed (substreams example_conn_buffered 1) \<and> (1::nat) \<noteq> 0
        \<and> \<not> c_closed example_conn_buffered
        \<and> length (mixnetOutbound example_conn_buffered) < mixnetOutbound_cap example_conn_buffered
        \<and> (\<not> ctx_done example_conn_buffered \<or> \<not> False)"
    by (simp add: defs)
  have h3: "\<not> localClosed (substreams example_conn_cancelled 1) \<and> (1::nat) \<noteq> 0
        \<and> \<not> c_closed example_conn_cancelled \<and> ctx_done example_conn_cancelled
        \<and> (\<not> length (mixnetOutbound example_conn_cancelled) < mixnetOutbound_cap example_conn_cancelled
            \<or> True)"
    by (simp add: defs)
  have h4: "\<not> localClosed (substreams example_conn_full 1) \<and> (1::nat) \<noteq> 0
        \<and> \<not> c_closed example_conn_full \<and> \<not> ctx_done example_conn_full
        \<and> \<not> length (mixnetOutbound example_conn_full) < mixnetOutbound_cap example_conn_full"
    by (simp add: defs)
  have h5: "\<not> localClosed (substreams example_conn_buffered 1)
        \<and> (\<not> False \<or> c_closed example_conn_buffered \<or> (1::nat) = 0)"
    by (simp add: defs)
  have g2: "\<not> localClosed (substreams example_conn_buffered 1) \<and> (1::nat) \<noteq> 0
        \<and> \<not> c_closed example_conn_buffered
        \<and> length (mixnetOutbound example_conn_buffered) < mixnetOutbound_cap example_conn_buffered
        \<and> \<not> ctx_done example_conn_buffered"
    by (simp add: defs)
  have g3: "\<not> localClosed (substreams example_conn_cancelled 1) \<and> (1::nat) \<noteq> 0
        \<and> \<not> c_closed example_conn_cancelled \<and> ctx_done example_conn_cancelled"
    by (simp add: defs)
  have i: "inbound_closed (closed_locally (substreams example_conn_buffered 1)) \<and> (0::nat) < 2"
    by (simp add: closed_locally_def defs)
  have e: "buffer (closed_locally (substreams example_conn_buffered 1)) = []"
    "inbound (closed_locally (substreams example_conn_buffered 1)) = [[1, 2, 3]]"
    by (simp_all add: closed_locally_def defs)
  note t1 = local_close[of example_conn_closed_stream 1 True False example_conn_closed_stream
      "substreams example_conn_closed_stream 1" False "[]" 2]
  note t2 = local_close[of example_conn_buffered 1 True False "close_sent example_conn_buffered 1"
      "closed_locally (substreams example_conn_buffered 1)" False "[]" 2]
  note t3 = local_close[of example_conn_cancelled 1 True True example_conn_cancelled
      "substreams example_conn_cancelled 1" False "[]" 2]
  note t4 = local_close[of example_conn_full 1 True False example_conn_full
      "substreams example_conn_full 1" False "[]" 2]
  note t5 = local_close[of example_conn_buffered 1 False False example_conn_buffered
      "substreams example_conn_buffered 1" False "[]" 2]
  have w1: "closeWithControl example_conn_closed_stream 1 True False = Returns example_conn_closed_stream"
    using t1[THEN conjunct1] l by (rule mp)
  have w2: "Substream_Close example_conn_buffered 1 False = Returns (close_sent example_conn_buffered 1)"
    using t2[THEN conjunct2, THEN conjunct1] h2 by (rule mp)
  have w3: "Substream_Close example_conn_cancelled 1 True = Returns (close_unsent example_conn_cancelled 1)"
    using t3[THEN conjunct2, THEN conjunct2, THEN conjunct1] h3 by (rule mp)
  have w4: "Substream_Close example_conn_full 1 False
        = Blocks (example_conn_full\<lparr>substreams := (substreams example_conn_full)
                    (1 := (substreams example_conn_full 1)\<lparr>localClosed := True\<rparr>),
                  c_nonce := c_nonce example_conn_full + 1\<rparr>)"
    using t4[THEN conjunct2, THEN conjunct2, THEN conjunct2, THEN conjunct1] h4 by (rule mp)
  have w5: "closeWithControl example_conn_buffered 1 False False
        = Returns (example_conn_buffered\<lparr>
            substreams := (substreams example_conn_buffered)
               (1 := closed_locally (substreams example_conn_buffered 1))\<rparr>)"
    using t5[THEN conjunct2, THEN conjunct2, THEN conjunct2, THEN conjunct2, THEN conjunct1] h5
    by (rule mp)
  have h6: "\<not> localClosed (substreams example_conn_buffered 1)
        \<and> closeWithControl example_conn_buffered 1 True False = Returns (close_sent example_conn_buffered 1)"
    using h2 w2 by (simp add: Substream_Close_def)
  have w6: "substreams (close_sent example_conn_buffered 1) 1
        = closed_locally (substreams example_conn_buffered 1)"
    using t2[THEN conjunct2, THEN conjunct2, THEN conjunct2, THEN conjunct2, THEN conjunct2,
        THEN conjunct1, THEN mp, OF h6] by (rule conjunct1)
  have w7: "fst (Read (closed_locally (substreams example_conn_buffered 1)) 2) = ReadBytes [1, 2]"
    using t2[THEN conjunct2, THEN conjunct2, THEN conjunct2, THEN conjunct2, THEN conjunct2,
        THEN conjunct2, THEN conjunct2, THEN conjunct2, THEN conjunct2, THEN conjunct2,
        THEN conjunct2, THEN conjunct2, THEN conjunct2, THEN mp, OF i] e
    by simp
  have m2: "mixnetOutbound (close_sent example_conn_buffered 1) = [close_frame example_conn_buffered 1]"
    by (simp add: close_sent_def close_unsent_def defs)
  have m3: "mixnetOutbound (close_unsent example_conn_cancelled 1) = []"
    by (simp add: close_unsent_def defs)
  show ?thesis
    by (intro conjI l w1 g2 w2 m2 g3 w3 m3 h4 w4 w5 w6 i[THEN conjunct1] i[THEN conjunct2] w7)
qed

text \<open>
  The claim as stated fails: a chunk that is in the inbound queue when the substream is closed
  locally is returned by a \<^verbatim>\<open>Read\<close> issued after the close.
\<close>

theorem local_close_counterexample:
  "(case Substream_Close example_conn_buffered 1 False of
      Returns c' \<Rightarrow> localClosed (substreams c' 1) \<and> Read (substreams c' 1) 3
          = (ReadBytes [1, 2, 3], (substreams c' 1)\<lparr>inbound := [], buffer := []\<rparr>)
    | Blocks c' \<Rightarrow> False)"
  by (simp add: Substream_Close_def closeWithControl_def closeLocalStream_def sendControl_def
        sendSubstreamMessage_def sendMixnetMessage_def removeStream_def Let_def
        example_conn_buffered_def example_conn_def example_stream_def newSubstream_def
        Read_def Read_copy_def)

end
